theory Spec2Isabelle
  imports Main
begin

section \<open>Go values: strings, indexing, slicing, panics\<close>

text \<open>
  A Go string is a sequence of bytes, here a \<open>string\<close> (a list of 8-bit characters).
  Indexing \<open>s[i]\<close> and slicing \<open>s[lo:hi]\<close> panic at run time when an index is out of
  range; the model returns the panic as a value.
\<close>

datatype panic = IndexOutOfRange | SliceBoundsOutOfRange | NilDereference

definition dquote :: char where
  "dquote = CHR 0x22"

definition byte_at :: "string \<Rightarrow> int \<Rightarrow> panic + char" where
  \<comment> \<open>\<open>s[i]\<close>\<close>
  "byte_at s i = (if 0 \<le> i \<and> i < int (length s) then Inr (s ! nat i) else Inl IndexOutOfRange)"

definition substr :: "string \<Rightarrow> int \<Rightarrow> int \<Rightarrow> panic + string" where
  \<comment> \<open>\<open>s[lo:hi]\<close>\<close>
  "substr s lo hi =
     (if 0 \<le> lo \<and> lo \<le> hi \<and> hi \<le> int (length s)
      then Inr (take (nat (hi - lo)) (drop (nat lo) s))
      else Inl SliceBoundsOutOfRange)"

definition bounded_by :: "string \<Rightarrow> char \<Rightarrow> char \<Rightarrow> panic + bool" where
  \<comment> \<open>\<open>s[0] == a && s[len(s) - 1] == b\<close>, the right operand evaluated only when the left holds\<close>
  "bounded_by s a b =
     (case byte_at s 0 of
        Inl p \<Rightarrow> Inl p
      | Inr c0 \<Rightarrow>
          if c0 \<noteq> a then Inr False
          else (case byte_at s (int (length s) - 1) of
                  Inl p \<Rightarrow> Inl p
                | Inr c1 \<Rightarrow> Inr (c1 = b)))"

fun Index :: "string \<Rightarrow> char \<Rightarrow> int" where
  \<comment> \<open>\<open>strings.Index(s, c)\<close> for a one-byte separator: the first position of \<open>c\<close>, or -1\<close>
  "Index [] c = - 1"
| "Index (x # xs) c =
     (if x = c then 0 else (let r = Index xs c in if r < 0 then - 1 else r + 1))"

subsection \<open>strings.TrimSpace\<close>

text \<open>
  \<open>strings.TrimSpace\<close> removes leading and trailing white space as \<open>unicode.IsSpace\<close>
  defines it. The string is UTF-8, so a white-space code point is one of the byte sequences
  below: the six ASCII ones, U+0085, U+00A0, U+1680, U+2000 to U+200A, U+2028, U+2029,
  U+202F, U+205F and U+3000. Bytes that are no valid encoding decode to U+FFFD, which is no
  white space, and the encoding of a code point is unique, so trimming removes exactly these
  sequences from both ends.
\<close>

definition space_runes :: "string list" where
  "space_runes =
     [[CHR 0x09], [CHR 0x0A], [CHR 0x0B], [CHR 0x0C], [CHR 0x0D], [CHR 0x20],
      [CHR 0xC2, CHR 0x85], [CHR 0xC2, CHR 0xA0],
      [CHR 0xE1, CHR 0x9A, CHR 0x80],
      [CHR 0xE2, CHR 0x80, CHR 0x80], [CHR 0xE2, CHR 0x80, CHR 0x81],
      [CHR 0xE2, CHR 0x80, CHR 0x82], [CHR 0xE2, CHR 0x80, CHR 0x83],
      [CHR 0xE2, CHR 0x80, CHR 0x84], [CHR 0xE2, CHR 0x80, CHR 0x85],
      [CHR 0xE2, CHR 0x80, CHR 0x86], [CHR 0xE2, CHR 0x80, CHR 0x87],
      [CHR 0xE2, CHR 0x80, CHR 0x88], [CHR 0xE2, CHR 0x80, CHR 0x89],
      [CHR 0xE2, CHR 0x80, CHR 0x8A],
      [CHR 0xE2, CHR 0x80, CHR 0xA8], [CHR 0xE2, CHR 0x80, CHR 0xA9],
      [CHR 0xE2, CHR 0x80, CHR 0xAF],
      [CHR 0xE2, CHR 0x81, CHR 0x9F],
      [CHR 0xE3, CHR 0x80, CHR 0x80]]"

definition starts_with :: "string \<Rightarrow> string \<Rightarrow> bool" where
  "starts_with s w = (w \<noteq> [] \<and> take (length w) s = w)"

fun strip :: "string list \<Rightarrow> string \<Rightarrow> string" where
  \<comment> \<open>remove from the front of \<open>s\<close>, repeatedly, any of the sequences \<open>ws\<close>\<close>
  "strip ws [] = []"
| "strip ws (c # cs) =
     (case filter (starts_with (c # cs)) ws of
        [] \<Rightarrow> c # cs
      | w # _ \<Rightarrow> strip ws (drop (length w - 1) cs))"

definition TrimLeft :: "string \<Rightarrow> string" where
  "TrimLeft s = strip space_runes s"

definition TrimRight :: "string \<Rightarrow> string" where
  \<comment> \<open>the same from the end: the reversed sequences off the reversed string\<close>
  "TrimRight s = rev (strip (map rev space_runes) (rev s))"

definition TrimSpace :: "string \<Rightarrow> string" where
  "TrimSpace s = TrimRight (TrimLeft s)"

section \<open>The data of config.go\<close>

text \<open>
  \<open>*Section\<close> and \<open>*os.File\<close> are pointers: the model keeps the Section objects in a heap
  and the os.File objects in a table, both indexed by the address that allocation returns,
  so that the \<open>sections\<close> map and the \<open>cur_sec\<close> cursor can hold the same Section. A nil
  pointer is \<open>None\<close>.
\<close>

type_synonym addr = nat
type_synonym fd = nat

datatype ConfLineError = ConfLineError string string
  \<comment> \<open>the (trimmed) line and the cause\<close>

datatype go_error =
    ConfFileError string ConfLineError
  | OsError string
  \<comment> \<open>the error value of \<open>os.Open\<close> or of \<open>ReadLine\<close>, returned as it is\<close>

datatype lookup_error =
    NoSuchSectionError string
  | NoSuchKeyError string string

datatype 'e outcome = Success | Failure 'e | Panicked panic
  \<comment> \<open>\<open>(true, nil)\<close>, \<open>(false, err)\<close>, or the call panics\<close>

record Section =
  name :: string
  fields_map :: "string \<rightharpoonup> string"

record PState =
  in_sec :: bool
  cur_sec :: "addr option"

record Config =
  conf_files :: "string \<rightharpoonup> fd option"
  sections :: "string \<rightharpoonup> addr"
  pstate :: PState

text \<open>
  What a file delivers to the loop of \<open>_parse_file\<close>: the results of the successive
  \<open>br.ReadLine()\<close> calls, each a line and an error (nil, \<open>io.EOF\<close> or another one); the
  \<open>isPrefix\<close> flag is dropped by the source. The loop is modelled for every such pair.
  \<open>bufio.Reader.ReadLine\<close> itself returns a line or an error, never both: the pairs it
  returns have a nil error or an empty line (\<open>ReadLine_calls\<close> below). After the recorded
  results the reader is at the end of the file and returns no line and \<open>io.EOF\<close>. Each
  os.File is read once, from its start and before it is closed, as a single \<open>Parse_conf\<close>
  does.
\<close>

datatype read_err = NoErr | EOF | IOErr string

type_synonym read_result = "string \<times> read_err"

record os_file =
  content :: "read_result list"
  close_calls :: nat

record State =
  conf :: Config
  heap :: "addr \<Rightarrow> Section"
  heap_next :: addr
  files :: "fd \<Rightarrow> os_file"
  files_next :: fd

type_synonym disk = "string \<Rightarrow> string + read_result list"
  \<comment> \<open>\<open>os.Open\<close> of a path: the error, or what reading the opened file delivers\<close>

section \<open>The functions of config.go\<close>

definition NewSection :: "string \<Rightarrow> State \<Rightarrow> addr \<times> State" where
  "NewSection nm s =
     (heap_next s,
      s\<lparr>heap := (heap s)(heap_next s := \<lparr>name = nm, fields_map = Map.empty\<rparr>),
        heap_next := Suc (heap_next s)\<rparr>)"

definition NewConfig :: "string list \<Rightarrow> Config" where
  "NewConfig fs =
     \<lparr>conf_files = foldl (\<lambda>m file. m(file \<mapsto> None)) Map.empty fs,
      sections = Map.empty,
      pstate = \<lparr>in_sec = False, cur_sec = None\<rparr>\<rparr>"

definition os_Open :: "disk \<Rightarrow> string \<Rightarrow> State \<Rightarrow> (string + fd) \<times> State" where
  "os_Open d fpath s =
     (case d fpath of
        Inl err \<Rightarrow> (Inl err, s)
      | Inr rs \<Rightarrow>
          (Inr (files_next s),
           s\<lparr>files := (files s)(files_next s := \<lparr>content = rs, close_calls = 0\<rparr>),
             files_next := Suc (files_next s)\<rparr>))"

definition Close :: "fd option \<Rightarrow> State \<Rightarrow> State" where
  \<comment> \<open>\<open>fobj.Close()\<close>; on a nil \<open>*os.File\<close> it returns an error and does nothing\<close>
  "Close fobj s =
     (case fobj of
        None \<Rightarrow> s
      | Some f \<Rightarrow> s\<lparr>files := (files s)(f := (files s f)\<lparr>close_calls := Suc (close_calls (files s f))\<rparr>)\<rparr>)"

text \<open>
  \<open>range\<close> over a Go map visits every key once, in an order the language leaves unspecified
  and that may differ from one loop to the next. Each loop over \<open>conf_files\<close> takes the order
  of its visit as a parameter; \<open>range_order\<close> says what orders a map allows.
\<close>

definition range_order :: "('k \<rightharpoonup> 'v) \<Rightarrow> 'k list \<Rightarrow> bool" where
  "range_order m ks = (distinct ks \<and> set ks = dom m)"

fun open_files :: "disk \<Rightarrow> string list \<Rightarrow> State \<Rightarrow> go_error outcome \<times> State" where
  "open_files d [] s = (Success, s)"
| "open_files d (fpath # rest) s =
     (case conf_files (conf s) fpath of
        Some None \<Rightarrow>
          (case os_Open d fpath s of
             (Inl err, s') \<Rightarrow> (Failure (OsError err), s')
           | (Inr fobj, s') \<Rightarrow>
               open_files d rest
                 (s'\<lparr>conf := (conf s')\<lparr>conf_files := (conf_files (conf s'))(fpath \<mapsto> Some fobj)\<rparr>\<rparr>))
      | _ \<Rightarrow> open_files d rest s)"

text \<open>
  \<open>_parse_line\<close>, in three parts: the branch of a header line (lines 121 to 131 of the
  source), the branch of any other non-blank line (lines 133 to 152), and the function
  itself, which trims the line and chooses the branch.
\<close>

definition header_branch :: "State \<Rightarrow> string \<Rightarrow> ConfLineError outcome \<times> State" where
  "header_branch s line =
     (case substr line 1 (int (length line) - 1) of
        Inl p \<Rightarrow> (Panicked p, s)
      | Inr sec_name \<Rightarrow>
          if length sec_name = 0
          then (Failure (ConfLineError line ''section name cannot be empty''), s)
          else
            (let (pSection, s1) =
                   (case sections (conf s) sec_name of
                      Some p \<Rightarrow> (p, s)
                    | None \<Rightarrow>
                        (let (p, s') = NewSection sec_name s in
                         (p, s'\<lparr>conf := (conf s')\<lparr>sections :=
                                   (sections (conf s'))(sec_name \<mapsto> p)\<rparr>\<rparr>)))
             in (Success,
                 s1\<lparr>conf := (conf s1)\<lparr>pstate :=
                      \<lparr>in_sec = True, cur_sec = Some pSection\<rparr>\<rparr>\<rparr>)))"

definition unquote :: "string \<Rightarrow> panic + string" where
  \<comment> \<open>lines 144 to 146: when both boundary bytes of the value are double quotes, the value
      becomes \<open>value[1: len(value) - 1]\<close>\<close>
  "unquote v =
     (case bounded_by v dquote dquote of
        Inl p \<Rightarrow> Inl p
      | Inr True \<Rightarrow> substr v 1 (int (length v) - 1)
      | Inr False \<Rightarrow> Inr v)"

definition key_value_branch :: "State \<Rightarrow> string \<Rightarrow> ConfLineError outcome \<times> State" where
  "key_value_branch s line =
     (let first_equation_pos = Index line (CHR ''='') in
      if first_equation_pos \<le> 0
      then (Failure (ConfLineError line ''invalid configuration line''), s)
      else
        (case substr line 0 first_equation_pos of
           Inl p \<Rightarrow> (Panicked p, s)
         | Inr key0 \<Rightarrow>
             (let key = TrimSpace key0 in
              if length key = 0
              then (Failure (ConfLineError line ''key cannot be empty''), s)
              else
                (case substr line (first_equation_pos + 1) (int (length line)) of
                   Inl p \<Rightarrow> (Panicked p, s)
                 | Inr value0 \<Rightarrow>
                     (case unquote (TrimSpace value0) of
                        Inl p \<Rightarrow> (Panicked p, s)
                      | Inr v \<Rightarrow>
                          if \<not> in_sec (pstate (conf s))
                          then (Failure (ConfLineError line
                                  ''configuration line without section''), s)
                          else
                            (case cur_sec (pstate (conf s)) of
                               None \<Rightarrow> (Panicked NilDereference, s)
                             | Some cur \<Rightarrow>
                                 (Success,
                                  s\<lparr>heap := (heap s)(cur := (heap s cur)
                                       \<lparr>fields_map := (fields_map (heap s cur))(key \<mapsto> v)\<rparr>)\<rparr>)))))))"

definition parse_line :: "State \<Rightarrow> string \<Rightarrow> ConfLineError outcome \<times> State" where
  "parse_line s line0 =
     (if length line0 > 0 then
        (let line = TrimSpace line0 in
         if length line > 0 then
           (case bounded_by line (CHR ''['') (CHR '']'') of
              Inl p \<Rightarrow> (Panicked p, s)
            | Inr True \<Rightarrow> header_branch s line
            | Inr False \<Rightarrow> key_value_branch s line)
         else (Success, s))
      else (Success, s))"

fun read_loop :: "string \<Rightarrow> read_result list \<Rightarrow> State \<Rightarrow> go_error outcome \<times> State" where
  "read_loop fname [] s =
     (case parse_line s [] of
        (Failure e, s') \<Rightarrow> (Failure (ConfFileError fname e), s')
      | (Panicked p, s') \<Rightarrow> (Panicked p, s')
      | (Success, s') \<Rightarrow> (Success, s'))"
| "read_loop fname ((line, err) # rs) s =
     (case (if err = NoErr \<or> err = EOF then parse_line s line else (Success, s)) of
        (Failure e, s') \<Rightarrow> (Failure (ConfFileError fname e), s')
      | (Panicked p, s') \<Rightarrow> (Panicked p, s')
      | (Success, s') \<Rightarrow>
          (case err of
             EOF \<Rightarrow> (Success, s')
           | IOErr m \<Rightarrow> (Failure (OsError m), s')
           | NoErr \<Rightarrow> read_loop fname rs s'))"

definition parse_file :: "string \<Rightarrow> fd option \<Rightarrow> State \<Rightarrow> go_error outcome \<times> State" where
  "parse_file fname file s =
     (case file of
        None \<Rightarrow> (Success, s)
      | Some f \<Rightarrow> read_loop fname (content (files s f)) s)"

fun finalize :: "string list \<Rightarrow> State \<Rightarrow> State" where
  "finalize [] s = s"
| "finalize (fpath # rest) s =
     (case conf_files (conf s) fpath of
        None \<Rightarrow> finalize rest s
      | Some fobj \<Rightarrow> finalize rest (Close fobj s))"

fun parse_files :: "string list \<Rightarrow> State \<Rightarrow> go_error outcome \<times> State" where
  "parse_files [] s = (Success, s)"
| "parse_files (fname # rest) s =
     (case conf_files (conf s) fname of
        None \<Rightarrow> parse_files rest s
      | Some fobj \<Rightarrow>
          (case parse_file fname fobj s of
             (Success, s') \<Rightarrow> parse_files rest s'
           | (r, s') \<Rightarrow> (r, s')))"

definition Parse_conf ::
  "disk \<Rightarrow> string list \<Rightarrow> string list \<Rightarrow> string list \<Rightarrow> State \<Rightarrow> go_error outcome \<times> State" where
  \<comment> \<open>the three orders are those of the \<open>range\<close> statements of \<open>_open_files\<close>, \<open>Parse_conf\<close> and \<open>finalize\<close>;
      the deferred \<open>finalize\<close> runs on every way out, a panic included\<close>
  "Parse_conf d order_open order_parse order_close s =
     (case open_files d order_open s of
        (Success, s1) \<Rightarrow>
          (case parse_files order_parse s1 of (r, s2) \<Rightarrow> (r, finalize order_close s2))
      | (r, s1) \<Rightarrow> (r, finalize order_close s1))"

definition Get :: "State \<Rightarrow> string \<Rightarrow> string \<Rightarrow> lookup_error + string" where
  "Get s section key =
     (case sections (conf s) section of
        None \<Rightarrow> Inl (NoSuchSectionError section)
      | Some pSection \<Rightarrow>
          (case fields_map (heap s pSection) key of
             None \<Rightarrow> Inl (NoSuchKeyError section key)
           | Some v \<Rightarrow> Inr v))"

section \<open>Notions used in the statements\<close>

definition start :: "Config \<Rightarrow> State" where
  \<comment> \<open>the program state around a Config just constructed: no Section and no os.File yet\<close>
  "start c =
     \<lparr>conf = c,
      heap = (\<lambda>_. \<lparr>name = [], fields_map = Map.empty\<rparr>), heap_next = 0,
      files = (\<lambda>_. \<lparr>content = [], close_calls = 0\<rparr>), files_next = 0\<rparr>"

fun parse_lines :: "State \<Rightarrow> string list \<Rightarrow> ConfLineError outcome \<times> State" where
  \<comment> \<open>\<open>_parse_line\<close> on each line in turn, up to the first one that does not succeed\<close>
  "parse_lines s [] = (Success, s)"
| "parse_lines s (l # ls) =
     (case parse_line s l of
        (Success, s') \<Rightarrow> parse_lines s' ls
      | (r, s') \<Rightarrow> (r, s'))"

definition in_section_s :: State where
  \<comment> \<open>an example state: a fresh Config after the header line of section \<open>s\<close>\<close>
  "in_section_s = snd (parse_line (start (NewConfig [])) ''[s]'')"

text \<open>
  How the specification reads a line. \<open>header_name\<close>: the name of a header line, the text
  between the brackets, when it is not empty. \<open>key_value\<close>: the key and the value of a
  key/value line, the value with one pair of enclosing double quotes removed; it is defined
  for the lines whose first \<open>=\<close> is not at the start and whose trimmed value is neither
  empty nor a single double quote. \<open>enter\<close> and \<open>assign\<close> are the two changes of the state
  that lines make, \<open>effect\<close> the change that a given line makes.
\<close>

definition header_name :: "string \<Rightarrow> string option" where
  "header_name l =
     (let t = TrimSpace l in
      if 2 < length t \<and> hd t = CHR ''['' \<and> last t = CHR '']'' then Some (butlast (tl t)) else None)"

definition key_value :: "string \<Rightarrow> (string \<times> string) option" where
  "key_value l =
     (let t = TrimSpace l; pos = Index t (CHR ''='') in
      if t = [] \<or> (hd t = CHR ''['' \<and> last t = CHR '']'') \<or> pos \<le> 0 then None
      else
        (let k = TrimSpace (take (nat pos) t); v = TrimSpace (drop (nat pos + 1) t) in
         if k = [] \<or> v = [] \<or> v = [dquote] then None
         else Some (k, if hd v = dquote \<and> last v = dquote then butlast (tl v) else v)))"

definition enter :: "string \<Rightarrow> State \<Rightarrow> State" where
  "enter n s =
     (case sections (conf s) n of
        Some a \<Rightarrow> s\<lparr>conf := (conf s)\<lparr>pstate := \<lparr>in_sec = True, cur_sec = Some a\<rparr>\<rparr>\<rparr>
      | None \<Rightarrow>
          s\<lparr>heap := (heap s)(heap_next s := \<lparr>name = n, fields_map = Map.empty\<rparr>),
            heap_next := Suc (heap_next s),
            conf := (conf s)\<lparr>sections := (sections (conf s))(n \<mapsto> heap_next s),
                              pstate := \<lparr>in_sec = True, cur_sec = Some (heap_next s)\<rparr>\<rparr>\<rparr>)"

definition assign :: "string \<Rightarrow> string \<Rightarrow> State \<Rightarrow> State" where
  "assign k v s =
     (case cur_sec (pstate (conf s)) of
        None \<Rightarrow> s
      | Some a \<Rightarrow> s\<lparr>heap := (heap s)(a := (heap s a)\<lparr>fields_map := (fields_map (heap s a))(k \<mapsto> v)\<rparr>)\<rparr>)"

definition effect :: "string \<Rightarrow> State \<Rightarrow> State" where
  "effect l s =
     (case header_name l of
        Some n \<Rightarrow> enter n s
      | None \<Rightarrow> (case key_value l of Some (k, v) \<Rightarrow> assign k v s | None \<Rightarrow> s))"

text \<open>
  \<open>store_ok\<close>: every registered name leads to an allocated Section of that name, and an
  active cursor holds a registered Section. \<open>cur_name\<close> is the name of the active section,
  \<open>value_of\<close> what the store holds for a section and key. \<open>assignments\<close> lists, for a
  sequence of lines read as the specification reads them, the (section, key, value)
  assignments in parse order; \<open>last_assignment\<close> is the value of the last one to a given
  section and key.
\<close>

definition store_ok :: "State \<Rightarrow> bool" where
  "store_ok s =
     ((\<forall>n a. sections (conf s) n = Some a \<longrightarrow> a < heap_next s \<and> name (heap s a) = n) \<and>
      (in_sec (pstate (conf s)) \<longrightarrow>
         (\<exists>a. cur_sec (pstate (conf s)) = Some a \<and>
              sections (conf s) (name (heap s a)) = Some a)))"

definition cur_name :: "State \<Rightarrow> string option" where
  "cur_name s =
     (if in_sec (pstate (conf s))
      then map_option (\<lambda>a. name (heap s a)) (cur_sec (pstate (conf s)))
      else None)"

definition value_of :: "State \<Rightarrow> string \<Rightarrow> string \<Rightarrow> string option" where
  "value_of s sec k =
     (case sections (conf s) sec of
        None \<Rightarrow> None
      | Some a \<Rightarrow> fields_map (heap s a) k)"

fun assignments :: "string option \<Rightarrow> string list \<Rightarrow> (string \<times> string \<times> string) list" where
  "assignments cur [] = []"
| "assignments cur (l # ls) =
     (case header_name l of
        Some n \<Rightarrow> assignments (Some n) ls
      | None \<Rightarrow>
          (case (key_value l, cur) of
             (Some (k, v), Some n) \<Rightarrow> (n, k, v) # assignments cur ls
           | _ \<Rightarrow> assignments cur ls))"

definition last_assignment ::
  "string \<Rightarrow> string \<Rightarrow> (string \<times> string \<times> string) list \<Rightarrow> string option" where
  "last_assignment sec k tr =
     (let hits = filter (\<lambda>(n, k', v). n = sec \<and> k' = k) tr in
      if hits = [] then None else Some (snd (snd (last hits))))"

text \<open>
  \<open>delivered\<close>: the lines that the loop of \<open>_parse_file\<close> hands to \<open>_parse_line\<close> when no
  line fails; \<open>read_failure\<close>: the read error that ends the loop, if one does.
  \<open>input_lines\<close> joins the lines of the files in a given order. \<open>wraps\<close> relates the result
  of a file to the result of its lines, \<open>store\<close> is the part of the state that parsing
  builds, and \<open>opened\<close> says that a path has its open file in \<open>conf_files\<close>.
\<close>

fun delivered :: "read_result list \<Rightarrow> string list" where
  "delivered [] = [[]]"
| "delivered ((line, NoErr) # rs) = line # delivered rs"
| "delivered ((line, EOF) # rs) = [line]"
| "delivered ((line, IOErr m) # rs) = []"

fun read_failure :: "read_result list \<Rightarrow> string option" where
  "read_failure [] = None"
| "read_failure ((line, NoErr) # rs) = read_failure rs"
| "read_failure ((line, EOF) # rs) = None"
| "read_failure ((line, IOErr m) # rs) = Some m"

definition input_lines :: "disk \<Rightarrow> string list \<Rightarrow> string list" where
  "input_lines d order =
     concat (map (\<lambda>p. case d p of Inl e \<Rightarrow> [] | Inr rs \<Rightarrow> delivered rs) order)"

fun wraps :: "go_error outcome \<Rightarrow> ConfLineError outcome \<Rightarrow> bool" where
  "wraps Success Success = True"
| "wraps (Failure (ConfFileError f e)) (Failure e') = (e = e')"
| "wraps (Panicked p) (Panicked p') = (p = p')"
| "wraps _ _ = False"

definition store :: "State \<Rightarrow> (string \<rightharpoonup> addr) \<times> PState \<times> (addr \<Rightarrow> Section) \<times> addr" where
  "store s = (sections (conf s), pstate (conf s), heap s, heap_next s)"

definition opened :: "disk \<Rightarrow> State \<Rightarrow> string \<Rightarrow> bool" where
  "opened d s p =
     (\<exists>f rs. conf_files (conf s) p = Some (Some f) \<and> d p = Inr rs \<and> content (files s f) = rs)"

text \<open>
  \<open>handles_ok base s\<close>: the os.File objects allocated from \<open>base\<close> on are exactly the
  non-nil values of \<open>conf_files\<close>, each under one path, and none has been closed.
  \<open>open_one\<close> is the state after one successful \<open>os.Open\<close> in \<open>_open_files\<close>.
\<close>

definition handles_ok :: "fd \<Rightarrow> State \<Rightarrow> bool" where
  "handles_ok base s =
     (base \<le> files_next s \<and>
      (\<forall>p f. conf_files (conf s) p = Some (Some f) \<longrightarrow> base \<le> f \<and> f < files_next s) \<and>
      (\<forall>f. base \<le> f \<and> f < files_next s \<longrightarrow>
           (\<exists>p. conf_files (conf s) p = Some (Some f)) \<and> close_calls (files s f) = 0) \<and>
      (\<forall>p q f. conf_files (conf s) p = Some (Some f) \<and> conf_files (conf s) q = Some (Some f)
           \<longrightarrow> p = q))"

definition open_one :: "string \<Rightarrow> read_result list \<Rightarrow> State \<Rightarrow> State" where
  "open_one p rs s =
     s\<lparr>files := (files s)(files_next s := \<lparr>content = rs, close_calls = 0\<rparr>),
       files_next := Suc (files_next s),
       conf := (conf s)\<lparr>conf_files := (conf_files (conf s))(p \<mapsto> Some (files_next s))\<rparr>\<rparr>"

text \<open>An example disk: two files that both continue section \<open>s\<close>, and no other file.\<close>

definition disk_ab :: disk where
  "disk_ab p =
     (if p = ''a'' then Inr [(''[s]'', NoErr), (''k = 1'', NoErr)]
      else if p = ''b'' then Inr [(''[s]'', NoErr), (''k = 2'', NoErr), ([], EOF)]
      else Inl ''no such file'')"

text \<open>
  \<open>names_keys_ok\<close>: every registered section name is a non-empty string, and every key of
  a registered Section is non-empty and has no white space at either end.
\<close>

definition names_keys_ok :: "State \<Rightarrow> bool" where
  "names_keys_ok s =
     (\<forall>n a. sections (conf s) n = Some a \<longrightarrow>
        n \<noteq> [] \<and> (\<forall>k \<in> dom (fields_map (heap s a)). k \<noteq> [] \<and> TrimSpace k = k))"

definition in_section_s_with_k :: State where
  \<comment> \<open>the example state after the further line \<open>k = v\<close>\<close>
  "in_section_s_with_k = snd (parse_line in_section_s ''k = v'')"

text \<open>
  Another example disk: file \<open>a\<close> starts with a key/value line, file \<open>b\<close> holds a header,
  file \<open>e\<close> one empty line.
\<close>

definition disk_kv :: disk where
  "disk_kv p =
     (if p = ''a'' then Inr [(''  '', NoErr), (''k = v'', NoErr), (''[s]'', NoErr)]
      else if p = ''b'' then Inr [(''[s]'', NoErr)]
      else if p = ''e'' then Inr [([], NoErr)]
      else Inl ''no such file'')"



section \<open>Lookup\<close>

text \<open>
  C6. \<open>Get\<close> fails with NoSuchSection exactly when the section name is not a key of the
  store, with NoSuchKey exactly when the section is there and the key is not a key of its
  fields, and returns the stored value otherwise; names and keys are compared as whole
  strings by the two map lookups.
\<close>

theorem Get_exact_lookup:
  "((Get s sec k = Inl (NoSuchSectionError sec)) = (sections (conf s) sec = None)) \<and>
   ((Get s sec k = Inl (NoSuchKeyError sec k)) =
      (\<exists>a. sections (conf s) sec = Some a \<and> fields_map (heap s a) k = None)) \<and>
   ((Get s sec k = Inr v) =
      (\<exists>a. sections (conf s) sec = Some a \<and> fields_map (heap s a) k = Some v))"
  by (auto simp: Get_def split: option.splits)

section \<open>Values without a closing partner\<close>

text \<open>
  C2. A key/value line whose trimmed value is the single character \<open>"\<close>: the source finds
  a double quote at both ends of the one-character value and slices \<open>value[1:0]\<close>, which
  panics; nothing is stored.
\<close>

theorem parse_line_lone_quote:
  "fst (parse_line s (''k = '' @ [dquote])) = Panicked SliceBoundsOutOfRange"
  by code_simp

text \<open>
  C10. A key/value line whose value trims to the empty string: the source reads \<open>value[0]\<close>
  of the empty value, which panics.
\<close>

theorem parse_line_empty_value:
  "fst (parse_line s ''k ='') = Panicked IndexOutOfRange"
  by code_simp

section \<open>Indexing and slicing inside the bounds\<close>

lemma Index_less: "Index s c < int (length s)"
  by (induction s) (auto simp: Let_def)

lemma Index_ge: "- 1 \<le> Index s c"
  by (induction s) (auto simp: Let_def)

lemma bounded_by_Nil: "bounded_by [] a b = Inl IndexOutOfRange"
  by (simp add: bounded_by_def byte_at_def)

lemma bounded_by_nonempty: "s \<noteq> [] \<Longrightarrow> bounded_by s a b = Inr (hd s = a \<and> last s = b)"
  by (cases s) (auto simp: bounded_by_def byte_at_def last_conv_nth nat_diff_distrib')

lemma substr_inner: "2 \<le> length s \<Longrightarrow> substr s 1 (int (length s) - 1) = Inr (butlast (tl s))"
  by (cases s) (auto simp: substr_def butlast_conv_take nat_diff_distrib')

lemma substr_prefix: "0 \<le> p \<Longrightarrow> p \<le> int (length s) \<Longrightarrow> substr s 0 p = Inr (take (nat p) s)"
  by (simp add: substr_def)

lemma substr_suffix: "0 \<le> p \<Longrightarrow> p \<le> int (length s) \<Longrightarrow> substr s p (int (length s)) = Inr (drop (nat p) s)"
  by (simp add: substr_def nat_diff_distrib')

lemma unquote_Nil: "unquote [] = Inl IndexOutOfRange"
  by (simp add: unquote_def bounded_by_Nil)

lemma unquote_single: "unquote [dquote] = Inl SliceBoundsOutOfRange"
  by (simp add: unquote_def bounded_by_def byte_at_def substr_def)

lemma unquote_long:
  assumes "2 \<le> length v"
  shows "unquote v = Inr (if hd v = dquote \<and> last v = dquote then butlast (tl v) else v)"
proof -
  from assms have ne: "v \<noteq> []" by auto
  show ?thesis
    by (simp add: unquote_def bounded_by_nonempty [OF ne] substr_inner [OF assms]
        split: bool.splits)
qed

lemma unquote_one: "length v = 1 \<Longrightarrow> v \<noteq> [dquote] \<Longrightarrow> unquote v = Inr v"
  by (cases v) (auto simp: unquote_def bounded_by_nonempty split: bool.splits)

lemma header_branch_eq:
  assumes "hd t = CHR ''[''" "last t = CHR '']''" "t \<noteq> []"
  shows "header_branch s t =
     (if length t = 2 then (Failure (ConfLineError t ''section name cannot be empty''), s)
      else (Success, enter (butlast (tl t)) s))"
proof -
  from assms have "length t \<noteq> 1"
    by (cases t) auto
  moreover from assms have "length t \<noteq> 0"
    by simp
  ultimately have len: "2 \<le> length t"
    by linarith
  show ?thesis
    using len
    by (auto simp: header_branch_def substr_inner [OF len] enter_def NewSection_def
        split: option.splits)
qed

lemma key_value_branch_eq:
  assumes "t \<noteq> []" "\<not> (hd t = CHR ''['' \<and> last t = CHR '']'')" "TrimSpace l = t"
  shows "key_value_branch s t =
     (if Index t (CHR ''='') \<le> 0 then (Failure (ConfLineError t ''invalid configuration line''), s)
      else if TrimSpace (take (nat (Index t (CHR ''=''))) t) = []
        then (Failure (ConfLineError t ''key cannot be empty''), s)
      else if TrimSpace (drop (nat (Index t (CHR ''='')) + 1) t) = [] then (Panicked IndexOutOfRange, s)
      else if TrimSpace (drop (nat (Index t (CHR ''='')) + 1) t) = [dquote] then (Panicked SliceBoundsOutOfRange, s)
      else if \<not> in_sec (pstate (conf s))
        then (Failure (ConfLineError t ''configuration line without section''), s)
      else if cur_sec (pstate (conf s)) = None then (Panicked NilDereference, s)
      else (Success, assign (fst (the (key_value l))) (snd (the (key_value l))) s))"
proof -
  let ?p = "Index t (CHR ''='')"
  let ?v = "TrimSpace (drop (nat ?p + 1) t)"
  have lt: "?p < int (length t)" by (rule Index_less)
  show ?thesis
  proof (cases "?p \<le> 0")
    case True
    then show ?thesis by (simp add: key_value_branch_def)
  next
    case False
    then have pos: "0 \<le> ?p" "0 \<le> ?p + 1" "?p \<le> int (length t)" "?p + 1 \<le> int (length t)"
      using lt by auto
    have nat1: "nat (?p + 1) = nat ?p + 1" using False by auto
    consider "?v = []" | "?v = [dquote]" | "length ?v = 1" "?v \<noteq> [dquote]" | "2 \<le> length ?v"
      by (cases ?v rule: list.exhaust) (auto simp: Suc_le_eq)
    then show ?thesis
    proof cases
      case 1
      with False show ?thesis
        by (simp add: key_value_branch_def substr_prefix [OF pos(1) pos(3)]
            substr_suffix [OF pos(2) pos(4)] nat1 unquote_Nil)
    next
      case 2
      with False show ?thesis
        by (simp add: key_value_branch_def substr_prefix [OF pos(1) pos(3)]
            substr_suffix [OF pos(2) pos(4)] nat1 unquote_single)
    next
      case 3
      then have v1: "hd ?v = last ?v" by (cases ?v) auto
      with 3 have "\<not> (hd ?v = dquote \<and> last ?v = dquote)" by (cases ?v) auto
      with False 3 assms show ?thesis
        by (auto simp: key_value_branch_def substr_prefix [OF pos(1) pos(3)]
            substr_suffix [OF pos(2) pos(4)] nat1 unquote_one key_value_def assign_def Let_def
            split: option.splits)
    next
      case 4
      then have "?v \<noteq> []" "?v \<noteq> [dquote]" by (auto simp: Suc_le_eq)
      with False 4 assms show ?thesis
        by (auto simp: key_value_branch_def substr_prefix [OF pos(1) pos(3)]
            substr_suffix [OF pos(2) pos(4)] nat1 unquote_long key_value_def assign_def Let_def
            split: option.splits)
    qed
  qed
qed

section \<open>Trimming\<close>

lemma strip_no_prefix: "w \<in> set ws \<Longrightarrow> \<not> starts_with (strip ws s) w"
proof (induction ws s rule: strip.induct)
  case (1 ws)
  then show ?case by (auto simp: starts_with_def)
next
  case (2 ws c cs)
  show ?case
  proof (cases "filter (starts_with (c # cs)) ws")
    case Nil
    then have "\<not> starts_with (c # cs) w"
      using "2.prems" by (simp add: filter_empty_conv)
    with Nil show ?thesis by simp
  next
    case (Cons w' rest)
    with 2 show ?thesis by simp
  qed
qed

lemma strip_id:
  assumes "\<forall>w \<in> set ws. \<not> starts_with s w"
  shows "strip ws s = s"
proof (cases s)
  case Nil
  then show ?thesis by simp
next
  case (Cons c cs)
  with assms have "filter (starts_with (c # cs)) ws = []"
    by (simp add: filter_empty_conv)
  with Cons show ?thesis by simp
qed

lemma strip_idem: "strip ws (strip ws s) = strip ws s"
  by (rule strip_id) (simp add: strip_no_prefix)

lemma strip_is_suffix: "\<exists>p. s = p @ strip ws s"
proof (induction ws s rule: strip.induct)
  case (1 ws)
  then show ?case by simp
next
  case (2 ws c cs)
  show ?case
  proof (cases "filter (starts_with (c # cs)) ws")
    case Nil
    then show ?thesis by simp
  next
    case (Cons w' rest)
    with 2 obtain p where p: "drop (length w' - 1) cs = p @ strip ws (drop (length w' - 1) cs)"
      by blast
    have "c # cs = (c # take (length w' - 1) cs) @ drop (length w' - 1) cs"
      by simp
    with p have "c # cs = ((c # take (length w' - 1) cs) @ p) @ strip ws (drop (length w' - 1) cs)"
      by simp
    then have "\<exists>q. c # cs = q @ strip ws (drop (length w' - 1) cs)"
      by (rule exI)
    with Cons show ?thesis
      by simp
  qed
qed

lemma starts_with_append: "starts_with u w \<Longrightarrow> starts_with (u @ q) w"
proof -
  assume a: "starts_with u w"
  then have "length (take (length w) u) = length w"
    by (simp add: starts_with_def)
  then have "length w \<le> length u"
    by simp
  with a show ?thesis by (simp add: starts_with_def)
qed

lemma TrimRight_is_prefix: "\<exists>q. t = TrimRight t @ q"
proof -
  obtain p where "rev t = p @ strip (map rev space_runes) (rev t)"
    using strip_is_suffix by blast
  then have "t = rev (strip (map rev space_runes) (rev t)) @ rev p"
    by (metis rev_append rev_rev_ident)
  then show ?thesis by (auto simp: TrimRight_def)
qed

lemma TrimLeft_no_space: "w \<in> set space_runes \<Longrightarrow> \<not> starts_with (TrimLeft s) w"
  by (simp add: TrimLeft_def strip_no_prefix)

lemma TrimSpace_no_space: "w \<in> set space_runes \<Longrightarrow> \<not> starts_with (TrimSpace s) w"
proof
  assume w: "w \<in> set space_runes" and sw: "starts_with (TrimSpace s) w"
  obtain q where "TrimLeft s = TrimSpace s @ q"
    using TrimRight_is_prefix [of "TrimLeft s"] by (auto simp: TrimSpace_def)
  with sw have "starts_with (TrimLeft s) w"
    by (metis starts_with_append)
  with w show False by (simp add: TrimLeft_no_space)
qed

lemma TrimRight_idem: "TrimRight (TrimRight s) = TrimRight s"
  by (simp add: TrimRight_def strip_idem)

lemma TrimSpace_idem: "TrimSpace (TrimSpace s) = TrimSpace s"
proof -
  have "TrimLeft (TrimSpace s) = TrimSpace s"
    unfolding TrimLeft_def by (rule strip_id) (simp add: TrimSpace_no_space)
  then have "TrimSpace (TrimSpace s) = TrimRight (TrimSpace s)"
    by (simp add: TrimSpace_def)
  then show ?thesis by (simp add: TrimSpace_def TrimRight_idem)
qed

lemma TrimSpace_Nil: "TrimSpace [] = []"
  by (simp add: TrimSpace_def TrimLeft_def TrimRight_def)

section \<open>What a line does\<close>

lemma parse_line_eq:
  "parse_line s l =
     (if TrimSpace l = [] then (Success, s)
      else if hd (TrimSpace l) = CHR ''['' \<and> last (TrimSpace l) = CHR '']''
        then header_branch s (TrimSpace l)
      else key_value_branch s (TrimSpace l))"
proof (cases "l = []")
  case True
  then show ?thesis by (simp add: parse_line_def TrimSpace_Nil)
next
  case False
  show ?thesis
  proof (cases "TrimSpace l = []")
    case True
    with False show ?thesis by (simp add: parse_line_def)
  next
    case ne: False
    with False show ?thesis
      by (simp add: parse_line_def Let_def bounded_by_nonempty [OF ne] split: bool.splits)
  qed
qed

lemma bracketed_length:
  fixes t :: string
  assumes "hd t = CHR ''[''" "last t = CHR '']''" "t \<noteq> []"
  shows "2 \<le> length t"
proof -
  from assms have "length t \<noteq> 1"
    by (cases t) auto
  moreover from assms have "length t \<noteq> 0"
    by simp
  ultimately show ?thesis
    by linarith
qed

lemma header_name_Some:
  "header_name l = Some n \<longleftrightarrow>
     (TrimSpace l \<noteq> [] \<and> hd (TrimSpace l) = CHR ''['' \<and> last (TrimSpace l) = CHR '']'' \<and>
      length (TrimSpace l) \<noteq> 2 \<and> n = butlast (tl (TrimSpace l)))"
proof
  assume "header_name l = Some n"
  then show "TrimSpace l \<noteq> [] \<and> hd (TrimSpace l) = CHR ''['' \<and> last (TrimSpace l) = CHR '']'' \<and>
      length (TrimSpace l) \<noteq> 2 \<and> n = butlast (tl (TrimSpace l))"
    by (auto simp: header_name_def Let_def split: if_splits)
next
  assume a: "TrimSpace l \<noteq> [] \<and> hd (TrimSpace l) = CHR ''['' \<and> last (TrimSpace l) = CHR '']'' \<and>
      length (TrimSpace l) \<noteq> 2 \<and> n = butlast (tl (TrimSpace l))"
  then have "2 \<le> length (TrimSpace l)"
    by (simp add: bracketed_length)
  with a have "2 < length (TrimSpace l)"
    by linarith
  with a show "header_name l = Some n"
    by (simp add: header_name_def Let_def)
qed

lemma parse_line_blank: "TrimSpace l = [] \<Longrightarrow> parse_line s l = (Success, s)"
  by (simp add: parse_line_eq)

lemma parse_line_header:
  assumes "header_name l = Some n"
  shows "parse_line s l = (Success, enter n s)"
proof -
  from assms have t: "TrimSpace l \<noteq> []" "hd (TrimSpace l) = CHR ''[''"
    "last (TrimSpace l) = CHR '']''" "length (TrimSpace l) \<noteq> 2" "n = butlast (tl (TrimSpace l))"
    by (simp_all add: header_name_Some)
  show ?thesis
    by (simp add: parse_line_eq t(1-4) header_branch_eq [OF t(2) t(3) t(1)] t(5))
qed

lemma parse_line_key_value:
  assumes "key_value l = Some (k, v)"
  shows "parse_line s l =
     (if \<not> in_sec (pstate (conf s))
      then (Failure (ConfLineError (TrimSpace l) ''configuration line without section''), s)
      else if cur_sec (pstate (conf s)) = None then (Panicked NilDereference, s)
      else (Success, assign k v s))"
proof -
  let ?t = "TrimSpace l"
  from assms have t: "?t \<noteq> []" "\<not> (hd ?t = CHR ''['' \<and> last ?t = CHR '']'')"
    "\<not> Index ?t (CHR ''='') \<le> 0"
    by (auto simp: key_value_def Let_def split: if_splits)
  with assms have kv: "TrimSpace (take (nat (Index ?t (CHR ''=''))) ?t) \<noteq> []"
    "TrimSpace (drop (nat (Index ?t (CHR ''='')) + 1) ?t) \<noteq> []"
    "TrimSpace (drop (nat (Index ?t (CHR ''='')) + 1) ?t) \<noteq> [dquote]"
    by (auto simp: key_value_def Let_def split: if_splits)
  have "parse_line s l = key_value_branch s ?t"
    using t by (auto simp: parse_line_eq)
  also have "\<dots> = (if \<not> in_sec (pstate (conf s))
      then (Failure (ConfLineError ?t ''configuration line without section''), s)
      else if cur_sec (pstate (conf s)) = None then (Panicked NilDereference, s)
      else (Success, assign k v s))"
    using t(3) kv assms by (simp add: key_value_branch_eq [OF t(1) t(2) refl])
  finally show ?thesis .
qed

lemma parse_line_other:
  assumes "TrimSpace l \<noteq> []" "header_name l = None" "key_value l = None"
  shows "fst (parse_line s l) \<noteq> Success \<and> snd (parse_line s l) = s"
proof (cases "hd (TrimSpace l) = CHR ''['' \<and> last (TrimSpace l) = CHR '']''")
  case True
  with assms have "length (TrimSpace l) = 2"
    using header_name_Some [of l "butlast (tl (TrimSpace l))"] by auto
  with True assms(1) show ?thesis
    by (simp add: parse_line_eq header_branch_eq)
next
  case False
  have eq: "parse_line s l = key_value_branch s (TrimSpace l)"
    using False assms(1) by (auto simp: parse_line_eq)
  from assms(3) False assms(1)
  have "Index (TrimSpace l) (CHR ''='') \<le> 0
      \<or> TrimSpace (take (nat (Index (TrimSpace l) (CHR ''=''))) (TrimSpace l)) = []
      \<or> TrimSpace (drop (nat (Index (TrimSpace l) (CHR ''='')) + 1) (TrimSpace l)) = []
      \<or> TrimSpace (drop (nat (Index (TrimSpace l) (CHR ''='')) + 1) (TrimSpace l)) = [dquote]"
    by (auto simp: key_value_def Let_def split: if_splits)
  then show ?thesis
    unfolding eq key_value_branch_eq [OF assms(1) False refl]
    by auto
qed

lemma parse_line_failure: "fst (parse_line s l) \<noteq> Success \<Longrightarrow> snd (parse_line s l) = s"
proof (cases "TrimSpace l = []")
  case True
  then show ?thesis by (simp add: parse_line_blank)
next
  case ne: False
  assume f: "fst (parse_line s l) \<noteq> Success"
  show ?thesis
  proof (cases "header_name l")
    case (Some n)
    with f show ?thesis by (simp add: parse_line_header)
  next
    case None
    show ?thesis
    proof (cases "key_value l")
      case kn: None
      with ne None show ?thesis by (simp add: parse_line_other)
    next
      case (Some kv)
      then have "key_value l = Some (fst kv, snd kv)" by simp
      from parse_line_key_value [OF this, of s] f show ?thesis
        by (auto split: if_splits)
    qed
  qed
qed

lemma parse_line_success:
  assumes "fst (parse_line s l) = Success"
  shows "snd (parse_line s l) = effect l s"
proof (cases "TrimSpace l = []")
  case True
  then have "header_name l = None" "key_value l = None"
    by (simp_all add: header_name_def key_value_def)
  with True show ?thesis by (simp add: parse_line_blank effect_def)
next
  case ne: False
  show ?thesis
  proof (cases "header_name l")
    case (Some n)
    then show ?thesis by (simp add: parse_line_header effect_def)
  next
    case None
    show ?thesis
    proof (cases "key_value l")
      case kn: None
      with ne None assms show ?thesis by (simp add: parse_line_other)
    next
      case (Some kv)
      then have "key_value l = Some (fst kv, snd kv)" by simp
      from parse_line_key_value [OF this, of s] assms None Some show ?thesis
        by (auto simp: effect_def split: if_splits prod.splits)
    qed
  qed
qed

section \<open>The store under a line\<close>

lemma store_ok_start: "store_ok (start (NewConfig fs))"
  by (simp add: store_ok_def start_def NewConfig_def)

lemma store_ok_enter: "store_ok s \<Longrightarrow> store_ok (enter n s)"
  unfolding store_ok_def enter_def
  by (cases "sections (conf s) n") (auto simp: less_Suc_eq)

lemma store_ok_assign: "store_ok s \<Longrightarrow> store_ok (assign k v s)"
  unfolding store_ok_def assign_def
  by (cases "cur_sec (pstate (conf s))") auto

lemma cur_name_enter: "store_ok s \<Longrightarrow> cur_name (enter n s) = Some n"
  unfolding store_ok_def enter_def cur_name_def
  by (cases "sections (conf s) n") auto

lemma cur_name_assign: "cur_name (assign k v s) = cur_name s"
  unfolding assign_def cur_name_def
  by (cases "cur_sec (pstate (conf s))") auto

lemma value_of_enter: "store_ok s \<Longrightarrow> value_of (enter n s) sec k = value_of s sec k"
  unfolding store_ok_def enter_def value_of_def
  by (cases "sections (conf s) n") (auto split: option.splits)

lemma value_of_assign:
  assumes "store_ok s" "cur_name s = Some n"
  shows "value_of (assign k' v s) sec k = (if sec = n \<and> k = k' then Some v else value_of s sec k)"
proof -
  from assms obtain a where a: "cur_sec (pstate (conf s)) = Some a" "name (heap s a) = n"
    "in_sec (pstate (conf s))"
    by (auto simp: cur_name_def split: if_splits)
  with assms(1) have reg: "sections (conf s) n = Some a"
    by (auto simp: store_ok_def)
  have other: "b = a \<longleftrightarrow> sec = n" if "sections (conf s) sec = Some b" for b
    using that reg a assms(1) by (auto simp: store_ok_def)
  show ?thesis
    using a reg other by (auto simp: value_of_def assign_def split: option.splits)
qed

lemma last_assignment_Nil: "last_assignment sec k [] = None"
  by (simp add: last_assignment_def)

lemma last_assignment_Cons:
  "last_assignment sec k ((n, k', v) # tr) =
     (case last_assignment sec k tr of
        Some w \<Rightarrow> Some w
      | None \<Rightarrow> if n = sec \<and> k' = k then Some v else None)"
  by (simp add: last_assignment_def Let_def)

section \<open>Last write wins, line by line\<close>

lemma store_ok_effect: "store_ok s \<Longrightarrow> store_ok (effect l s)"
  by (auto simp: effect_def store_ok_enter store_ok_assign split: option.splits)

lemma parse_line_store_ok: "store_ok s \<Longrightarrow> store_ok (snd (parse_line s l))"
  by (cases "fst (parse_line s l) = Success")
    (simp_all add: parse_line_success parse_line_failure store_ok_effect)

lemma success_key_value_in_section:
  assumes "fst (parse_line s l) = Success" "key_value l = Some (k, v)" "store_ok s"
  shows "\<exists>n. cur_name s = Some n"
proof -
  from parse_line_key_value [OF assms(2), of s] assms(1)
  have "in_sec (pstate (conf s))" "cur_sec (pstate (conf s)) \<noteq> None"
    by (auto split: if_splits)
  then show ?thesis
    by (auto simp: cur_name_def)
qed

lemma parse_line_cur_name:
  assumes "fst (parse_line s l) = Success" "store_ok s"
  shows "cur_name (snd (parse_line s l)) =
     (case header_name l of Some n \<Rightarrow> Some n | None \<Rightarrow> cur_name s)"
  using assms
  by (auto simp: parse_line_success effect_def cur_name_enter cur_name_assign
      split: option.splits)

lemma parse_line_value_of:
  assumes "fst (parse_line s l) = Success" "store_ok s"
  shows "value_of (snd (parse_line s l)) sec k =
     (case last_assignment sec k (assignments (cur_name s) [l]) of
        Some v \<Rightarrow> Some v
      | None \<Rightarrow> value_of s sec k)"
proof (cases "header_name l")
  case (Some n)
  with assms show ?thesis
    by (simp add: parse_line_success effect_def value_of_enter last_assignment_Nil)
next
  case None
  show ?thesis
  proof (cases "key_value l")
    case kn: None
    with None assms show ?thesis
      by (simp add: parse_line_success effect_def last_assignment_Nil)
  next
    case (Some kv)
    obtain k' v where kv: "kv = (k', v)" by (cases kv)
    with Some have k: "key_value l = Some (k', v)" by simp
    from success_key_value_in_section [OF assms(1) k assms(2)]
    obtain n where n: "cur_name s = Some n" by blast
    with None k assms show ?thesis
      by (auto simp: parse_line_success effect_def value_of_assign last_assignment_Cons
          last_assignment_Nil)
  qed
qed

lemma assignments_Cons:
  "assignments cur (l # ls) =
     assignments cur [l] @
     assignments (case header_name l of Some n \<Rightarrow> Some n | None \<Rightarrow> cur) ls"
  by (auto split: option.splits)

lemma last_assignment_append:
  "last_assignment sec k (tr1 @ tr2) =
     (case last_assignment sec k tr2 of
        Some w \<Rightarrow> Some w
      | None \<Rightarrow> last_assignment sec k tr1)"
  by (simp add: last_assignment_def Let_def)

lemma parse_lines_value_of:
  "store_ok s \<Longrightarrow> parse_lines s ls = (Success, s') \<Longrightarrow>
   store_ok s' \<and>
   value_of s' sec k =
     (case last_assignment sec k (assignments (cur_name s) ls) of
        Some v \<Rightarrow> Some v
      | None \<Rightarrow> value_of s sec k)"
proof (induction ls arbitrary: s)
  case Nil
  then show ?case by (simp add: last_assignment_Nil)
next
  case (Cons l ls)
  from Cons.prems(2) have ok: "fst (parse_line s l) = Success"
    by (auto split: prod.splits outcome.splits)
  with Cons.prems(2) have rest: "parse_lines (snd (parse_line s l)) ls = (Success, s')"
    by (auto split: prod.splits outcome.splits)
  have inv: "store_ok (snd (parse_line s l))"
    using Cons.prems(1) by (rule parse_line_store_ok)
  note ih = Cons.IH [OF inv rest]
  have cur: "cur_name (snd (parse_line s l)) =
      (case header_name l of Some n \<Rightarrow> Some n | None \<Rightarrow> cur_name s)"
    using ok Cons.prems(1) by (rule parse_line_cur_name)
  have one: "value_of (snd (parse_line s l)) sec k =
      (case last_assignment sec k (assignments (cur_name s) [l]) of
         Some v \<Rightarrow> Some v
       | None \<Rightarrow> value_of s sec k)"
    using ok Cons.prems(1) by (rule parse_line_value_of)
  have "assignments (cur_name s) (l # ls) =
      assignments (cur_name s) [l] @ assignments (cur_name (snd (parse_line s l))) ls"
    unfolding cur by (rule assignments_Cons)
  then show ?case
    using ih one by (simp add: last_assignment_append split: option.splits)
qed

section \<open>Files as sequences of lines\<close>

lemma effect_frame:
  "files (effect l s) = files s \<and> files_next (effect l s) = files_next s \<and>
   conf_files (conf (effect l s)) = conf_files (conf s)"
  by (auto simp: effect_def enter_def assign_def split: option.splits)

lemma parse_line_frame:
  "files (snd (parse_line s l)) = files s \<and> files_next (snd (parse_line s l)) = files_next s \<and>
   conf_files (conf (snd (parse_line s l))) = conf_files (conf s)"
  by (cases "fst (parse_line s l) = Success")
    (simp_all add: parse_line_success parse_line_failure effect_frame)

lemma parse_lines_frame:
  "files (snd (parse_lines s ls)) = files s \<and> files_next (snd (parse_lines s ls)) = files_next s \<and>
   conf_files (conf (snd (parse_lines s ls))) = conf_files (conf s)"
proof (induction ls arbitrary: s)
  case Nil
  then show ?case by simp
next
  case (Cons l ls)
  show ?case
  proof (cases "parse_line s l")
    case (Pair r s1)
    with parse_line_frame [of s l] have fr: "files s1 = files s" "files_next s1 = files_next s"
      "conf_files (conf s1) = conf_files (conf s)"
      by simp_all
    show ?thesis
      using Pair fr Cons.IH [of s1] by (cases r) simp_all
  qed
qed

lemma parse_lines_append:
  "parse_lines s (xs @ ys) =
     (case parse_lines s xs of
        (Success, s') \<Rightarrow> parse_lines s' ys
      | (r, s') \<Rightarrow> (r, s'))"
proof (induction xs arbitrary: s)
  case Nil
  then show ?case by simp
next
  case (Cons x xs)
  show ?case
  proof (cases "parse_line s x")
    case (Pair r s1)
    then show ?thesis
      using Cons.IH [of s1] by (cases r) simp_all
  qed
qed

lemma parse_lines_failure_unchanged:
  "parse_lines s ls = (r, s') \<Longrightarrow> r \<noteq> Success \<Longrightarrow>
   \<exists>done l rest. ls = done @ l # rest \<and> parse_lines s done = (Success, s') \<and>
     parse_line s' l = (r, s')"
proof (induction ls arbitrary: s)
  case Nil
  then show ?case by simp
next
  case (Cons x xs)
  show ?case
  proof (cases "fst (parse_line s x) = Success")
    case True
    then have "parse_lines (snd (parse_line s x)) xs = (r, s')"
      using Cons.prems(1) by (auto split: prod.splits outcome.splits)
    from Cons.IH [OF this Cons.prems(2)] obtain dn l rest where
      d: "xs = dn @ l # rest" "parse_lines (snd (parse_line s x)) dn = (Success, s')"
         "parse_line s' l = (r, s')"
      by blast
    from True d(2) have "parse_lines s (x # dn) = (Success, s')"
      by (auto split: prod.splits outcome.splits)
    with d(1) d(3) show ?thesis
      by (metis append_Cons)
  next
    case False
    then have "snd (parse_line s x) = s"
      by (rule parse_line_failure)
    with False Cons.prems(1) have "parse_line s x = (r, s')" "s' = s"
      by (auto split: prod.splits outcome.splits)
    then have "x # xs = [] @ x # xs \<and> parse_lines s [] = (Success, s') \<and> parse_line s' x = (r, s')"
      by simp
    then show ?thesis by blast
  qed
qed

lemma read_loop_lines:
  "read_failure rs = None \<Longrightarrow>
   wraps (fst (read_loop fname rs s)) (fst (parse_lines s (delivered rs))) \<and>
   snd (read_loop fname rs s) = snd (parse_lines s (delivered rs))"
proof (induction rs arbitrary: s)
  case Nil
  then show ?case
    by (simp add: parse_line_blank TrimSpace_Nil)
next
  case (Cons r rs)
  obtain line err where r: "r = (line, err)" by (cases r)
  show ?case
  proof (cases err)
    case NoErr
    with Cons r show ?thesis
      by (cases "parse_line s line"; cases "fst (parse_line s line)") auto
  next
    case EOF
    with r show ?thesis
      by (cases "parse_line s line"; cases "fst (parse_line s line)") auto
  next
    case (IOErr m)
    with Cons.prems r show ?thesis by simp
  qed
qed

section \<open>The store does not depend on the files\<close>

lemma store_eqD:
  assumes "store s = store t"
  shows "sections (conf s) = sections (conf t)" "pstate (conf s) = pstate (conf t)"
    "heap s = heap t" "heap_next s = heap_next t"
  using assms by (simp_all add: store_def)

lemma enter_store:
  assumes "store s = store t"
  shows "store (enter n s) = store (enter n t)"
  by (cases "sections (conf t) n") (simp_all add: store_def enter_def store_eqD [OF assms])

lemma assign_store:
  assumes "store s = store t"
  shows "store (assign k v s) = store (assign k v t)"
  by (cases "cur_sec (pstate (conf t))") (simp_all add: store_def assign_def store_eqD [OF assms])

lemma effect_store:
  assumes "store s = store t"
  shows "store (effect l s) = store (effect l t)"
proof (cases "header_name l")
  case (Some n)
  then show ?thesis by (simp add: effect_def enter_store [OF assms])
next
  case None
  show ?thesis
  proof (cases "key_value l")
    case kn: None
    with None assms show ?thesis by (simp add: effect_def)
  next
    case (Some kv)
    with None show ?thesis
      by (cases kv) (simp add: effect_def assign_store [OF assms])
  qed
qed

lemma parse_line_other_outcome:
  assumes "TrimSpace l \<noteq> []" "header_name l = None" "key_value l = None"
  shows "fst (parse_line s l) = fst (parse_line t l)"
proof (cases "hd (TrimSpace l) = CHR ''['' \<and> last (TrimSpace l) = CHR '']''")
  case True
  with assms have "length (TrimSpace l) = 2"
    using header_name_Some [of l "butlast (tl (TrimSpace l))"] by auto
  with True assms(1) show ?thesis
    by (simp add: parse_line_eq header_branch_eq)
next
  case False
  have eq: "parse_line s l = key_value_branch s (TrimSpace l)"
    "parse_line t l = key_value_branch t (TrimSpace l)"
    using False assms(1) by (auto simp: parse_line_eq)
  from assms(3) False assms(1)
  have "Index (TrimSpace l) (CHR ''='') \<le> 0
      \<or> TrimSpace (take (nat (Index (TrimSpace l) (CHR ''=''))) (TrimSpace l)) = []
      \<or> TrimSpace (drop (nat (Index (TrimSpace l) (CHR ''='')) + 1) (TrimSpace l)) = []
      \<or> TrimSpace (drop (nat (Index (TrimSpace l) (CHR ''='')) + 1) (TrimSpace l)) = [dquote]"
    by (auto simp: key_value_def Let_def split: if_splits)
  then show ?thesis
    unfolding eq key_value_branch_eq [OF assms(1) False refl]
    by auto
qed

lemma parse_line_outcome_store:
  assumes "store s = store t"
  shows "fst (parse_line s l) = fst (parse_line t l)"
proof (cases "TrimSpace l = []")
  case True
  then show ?thesis by (simp add: parse_line_blank)
next
  case ne: False
  show ?thesis
  proof (cases "header_name l")
    case (Some n)
    then show ?thesis by (simp add: parse_line_header)
  next
    case None
    show ?thesis
    proof (cases "key_value l")
      case kn: None
      with ne None show ?thesis by (rule parse_line_other_outcome)
    next
      case (Some kv)
      then have kv: "key_value l = Some (fst kv, snd kv)" by simp
      show ?thesis
        by (simp add: parse_line_key_value [OF kv] store_eqD(2) [OF assms])
    qed
  qed
qed

lemma parse_line_store:
  assumes "store s = store t"
  shows "store (snd (parse_line s l)) = store (snd (parse_line t l))"
proof (cases "fst (parse_line s l) = Success")
  case True
  then have "fst (parse_line t l) = Success"
    by (simp add: parse_line_outcome_store [OF assms, of l])
  with True have "snd (parse_line s l) = effect l s" "snd (parse_line t l) = effect l t"
    by (simp_all add: parse_line_success)
  then show ?thesis
    by (simp add: effect_store [OF assms])
next
  case False
  then have "fst (parse_line t l) \<noteq> Success"
    by (simp add: parse_line_outcome_store [OF assms, of l])
  with False have "snd (parse_line s l) = s" "snd (parse_line t l) = t"
    by (simp_all add: parse_line_failure)
  then show ?thesis
    by (simp add: assms)
qed

lemma parse_lines_store:
  "store s = store t \<Longrightarrow>
   fst (parse_lines s ls) = fst (parse_lines t ls) \<and>
   store (snd (parse_lines s ls)) = store (snd (parse_lines t ls))"
proof (induction ls arbitrary: s t)
  case Nil
  then show ?case by simp
next
  case (Cons l ls)
  obtain r s1 where s1: "parse_line s l = (r, s1)" by (cases "parse_line s l")
  obtain r' t1 where t1: "parse_line t l = (r', t1)" by (cases "parse_line t l")
  have "r = r'"
    using parse_line_outcome_store [OF Cons.prems, of l] s1 t1 by simp
  with s1 have s1': "parse_line s l = (r', s1)"
    by simp
  have st: "store s1 = store t1"
    using parse_line_store [OF Cons.prems, of l] s1 t1 by simp
  show ?case
    using s1' t1 Cons.IH [OF st] st by (cases r') simp_all
qed

lemma parse_file_lines:
  assumes "opened d s p" "d p = Inr rs" "read_failure rs = None"
  shows "\<exists>f. conf_files (conf s) p = Some (Some f) \<and>
     wraps (fst (parse_file p (Some f) s)) (fst (parse_lines s (delivered rs))) \<and>
     snd (parse_file p (Some f) s) = snd (parse_lines s (delivered rs))"
proof -
  from assms(1,2) obtain f where f: "conf_files (conf s) p = Some (Some f)"
    "content (files s f) = rs"
    by (auto simp: opened_def)
  with read_loop_lines [OF assms(3), of p s] show ?thesis
    by (simp add: parse_file_def)
qed

lemma opened_frame:
  "files s' = files s \<Longrightarrow> conf_files (conf s') = conf_files (conf s) \<Longrightarrow>
   opened d s' p = opened d s p"
  by (simp add: opened_def)

lemma parse_files_lines:
  "\<forall>p \<in> set ps. opened d s p \<and> (\<exists>rs. d p = Inr rs \<and> read_failure rs = None) \<Longrightarrow>
   wraps (fst (parse_files ps s)) (fst (parse_lines s (input_lines d ps))) \<and>
   snd (parse_files ps s) = snd (parse_lines s (input_lines d ps))"
proof (induction ps arbitrary: s)
  case Nil
  then show ?case by (simp add: input_lines_def)
next
  case (Cons p ps)
  from Cons.prems obtain rs where rs: "d p = Inr rs" "read_failure rs = None" and op: "opened d s p"
    by auto
  from parse_file_lines [OF op rs] obtain f where
    f: "conf_files (conf s) p = Some (Some f)"
    and w: "wraps (fst (parse_file p (Some f) s)) (fst (parse_lines s (delivered rs)))"
    and st: "snd (parse_file p (Some f) s) = snd (parse_lines s (delivered rs))"
    by blast
  let ?s1 = "snd (parse_lines s (delivered rs))"
  have lines: "input_lines d (p # ps) = delivered rs @ input_lines d ps"
    using rs by (simp add: input_lines_def)
  show ?case
  proof (cases "fst (parse_file p (Some f) s)")
    case Success
    with w have ok: "fst (parse_lines s (delivered rs)) = Success"
      by (cases "fst (parse_lines s (delivered rs))") auto
    have fr: "files ?s1 = files s" "conf_files (conf ?s1) = conf_files (conf s)"
      using parse_lines_frame [of s "delivered rs"] by simp_all
    have "\<forall>q \<in> set ps. opened d ?s1 q \<and> (\<exists>rs. d q = Inr rs \<and> read_failure rs = None)"
      using Cons.prems by (simp add: opened_frame [OF fr])
    from Cons.IH [OF this] Success ok st f show ?thesis
      by (cases "parse_file p (Some f) s"; cases "parse_lines s (delivered rs)")
        (auto simp: lines parse_lines_append)
  next
    case (Failure e)
    with w obtain e' where "fst (parse_lines s (delivered rs)) = Failure e'"
      by (cases "fst (parse_lines s (delivered rs))"; cases e) auto
    with Failure w st f show ?thesis
      by (cases "parse_file p (Some f) s"; cases "parse_lines s (delivered rs)")
        (auto simp: lines parse_lines_append)
  next
    case (Panicked x)
    with w have "fst (parse_lines s (delivered rs)) = Panicked x"
      by (cases "fst (parse_lines s (delivered rs))") auto
    with Panicked w st f show ?thesis
      by (cases "parse_file p (Some f) s"; cases "parse_lines s (delivered rs)")
        (auto simp: lines parse_lines_append)
  qed
qed

section \<open>Opening the files\<close>

lemma foldl_conf_files:
  "foldl (\<lambda>m file. m(file \<mapsto> None)) m0 fs p = (if p \<in> set fs then Some None else m0 p)"
  by (induction fs arbitrary: m0) auto

lemma NewConfig_conf_files:
  "conf_files (NewConfig fs) p = (if p \<in> set fs then Some None else None)"
  by (simp add: NewConfig_def foldl_conf_files)

lemma NewConfig_dom: "dom (conf_files (NewConfig fs)) = set fs"
  by (auto simp: NewConfig_conf_files dom_def)

lemma handles_ok_NewConfig: "conf s = NewConfig fs \<Longrightarrow> handles_ok (files_next s) s"
  by (simp add: handles_ok_def NewConfig_conf_files)

lemma handles_ok_open:
  assumes "handles_ok base s" "conf_files (conf s) p = Some None"
  shows "handles_ok base
     (s\<lparr>files := (files s)(files_next s := \<lparr>content = rs, close_calls = 0\<rparr>),
        files_next := Suc (files_next s),
        conf := (conf s)\<lparr>conf_files := (conf_files (conf s))(p \<mapsto> Some (files_next s))\<rparr>\<rparr>)"
proof -
  from assms(1) have
    a: "base \<le> files_next s"
    and b: "\<And>q f. conf_files (conf s) q = Some (Some f) \<Longrightarrow> base \<le> f \<and> f < files_next s"
    and c: "\<And>f. base \<le> f \<Longrightarrow> f < files_next s \<Longrightarrow>
        (\<exists>q. conf_files (conf s) q = Some (Some f)) \<and> close_calls (files s f) = 0"
    and d: "\<And>q r f. conf_files (conf s) q = Some (Some f) \<Longrightarrow>
        conf_files (conf s) r = Some (Some f) \<Longrightarrow> q = r"
    unfolding handles_ok_def by blast+
  have c': "\<exists>q. q \<noteq> p \<and> conf_files (conf s) q = Some (Some f)"
    if "base \<le> f" "f < files_next s" for f
  proof -
    from c [OF that] obtain q where "conf_files (conf s) q = Some (Some f)"
      by blast
    with assms(2) have "q \<noteq> p \<and> conf_files (conf s) q = Some (Some f)"
      by auto
    then show ?thesis ..
  qed
  let ?s = "s\<lparr>files := (files s)(files_next s := \<lparr>content = rs, close_calls = 0\<rparr>),
        files_next := Suc (files_next s),
        conf := (conf s)\<lparr>conf_files := (conf_files (conf s))(p \<mapsto> Some (files_next s))\<rparr>\<rparr>"
  have 1: "base \<le> files_next ?s"
    using a by simp
  have 2: "base \<le> f \<and> f < files_next ?s" if "conf_files (conf ?s) q = Some (Some f)" for q f
    using that a b [of q f] by (auto split: if_splits)
  have 3: "(\<exists>q. conf_files (conf ?s) q = Some (Some f)) \<and> close_calls (files ?s f) = 0"
    if "base \<le> f \<and> f < files_next ?s" for f
  proof (cases "f = files_next s")
    case True
    then show ?thesis by auto
  next
    case False
    with that have lt: "base \<le> f" "f < files_next s" by auto
    from c' [OF lt] obtain q where "q \<noteq> p" "conf_files (conf s) q = Some (Some f)"
      by blast
    then have "conf_files (conf ?s) q = Some (Some f)" by simp
    then have "\<exists>q. conf_files (conf ?s) q = Some (Some f)" ..
    moreover have "close_calls (files ?s f) = 0"
      using False c [OF lt] by simp
    ultimately show ?thesis ..
  qed
  have 4: "q = r"
    if "conf_files (conf ?s) q = Some (Some f) \<and> conf_files (conf ?s) r = Some (Some f)" for q r f
  proof (cases "f = files_next s")
    case True
    with that b [of q f] b [of r f] show ?thesis
      by (auto split: if_splits)
  next
    case False
    with that d [of q f r] show ?thesis
      by (auto split: if_splits)
  qed
  show ?thesis
    unfolding handles_ok_def using 1 2 3 4 by blast
qed

lemma open_files_Cons:
  "open_files d (p # ps) s =
     (if conf_files (conf s) p = Some None
      then (case d p of
              Inl err \<Rightarrow> (Failure (OsError err), s)
            | Inr rs \<Rightarrow> open_files d ps (open_one p rs s))
      else open_files d ps s)"
  by (auto simp: os_Open_def open_one_def split: option.splits sum.splits)

lemma open_one_frame:
  "store (open_one p rs s) = store s \<and>
   dom (conf_files (conf (open_one p rs s))) = insert p (dom (conf_files (conf s))) \<and>
   files_next (open_one p rs s) = Suc (files_next s) \<and>
   (\<forall>f. f \<noteq> files_next s \<longrightarrow> files (open_one p rs s) f = files s f)"
  by (simp add: open_one_def store_def)

lemma open_files_handles:
  "handles_ok base s \<Longrightarrow> handles_ok base (snd (open_files d ps s))"
proof (induction ps arbitrary: s)
  case Nil
  then show ?case by simp
next
  case (Cons p ps)
  show ?case
  proof (cases "conf_files (conf s) p = Some None")
    case True
    show ?thesis
    proof (cases "d p")
      case (Inl err)
      with True Cons.prems show ?thesis by (simp add: open_files_Cons del: open_files.simps)
    next
      case (Inr rs)
      have "handles_ok base (open_one p rs s)"
        unfolding open_one_def using Cons.prems True by (rule handles_ok_open)
      from Cons.IH [OF this] True Inr show ?thesis by (simp add: open_files_Cons del: open_files.simps)
    qed
  next
    case False
    with Cons show ?thesis by (simp add: open_files_Cons del: open_files.simps)
  qed
qed

lemma open_files_frame:
  "store (snd (open_files d ps s)) = store s \<and>
   dom (conf_files (conf (snd (open_files d ps s)))) = dom (conf_files (conf s)) \<and>
   files_next s \<le> files_next (snd (open_files d ps s)) \<and>
   (\<forall>f. f < files_next s \<or> files_next (snd (open_files d ps s)) \<le> f \<longrightarrow>
        files (snd (open_files d ps s)) f = files s f)"
proof (induction ps arbitrary: s)
  case Nil
  then show ?case by simp
next
  case (Cons p ps)
  show ?case
  proof (cases "conf_files (conf s) p = Some None")
    case True
    show ?thesis
    proof (cases "d p")
      case (Inl err)
      with True show ?thesis by (simp add: open_files_Cons del: open_files.simps)
    next
      case (Inr rs)
      have eq: "open_files d (p # ps) s = open_files d ps (open_one p rs s)"
        using True Inr by (simp add: open_files_Cons del: open_files.simps)
      have "insert p (dom (conf_files (conf s))) = dom (conf_files (conf s))"
        using True by auto
      with Cons.IH [of "open_one p rs s"] open_one_frame [of p rs s] show ?thesis
        unfolding eq by auto
    qed
  next
    case False
    with Cons.IH [of s] show ?thesis by (simp add: open_files_Cons del: open_files.simps)
  qed
qed

section \<open>Parsing leaves the files alone, finalize closes them\<close>

lemma read_loop_frame:
  "files (snd (read_loop fname rs s)) = files s \<and>
   files_next (snd (read_loop fname rs s)) = files_next s \<and>
   conf_files (conf (snd (read_loop fname rs s))) = conf_files (conf s)"
proof (induction rs arbitrary: s)
  case Nil
  obtain r s1 where p: "parse_line s [] = (r, s1)" by (cases "parse_line s []")
  with parse_line_frame [of s "[]"] show ?case
    by (cases r) simp_all
next
  case (Cons x rs)
  obtain line err where x: "x = (line, err)" by (cases x)
  obtain r s1 where p: "parse_line s line = (r, s1)" by (cases "parse_line s line")
  from p parse_line_frame [of s line] have fr: "files s1 = files s"
    "files_next s1 = files_next s" "conf_files (conf s1) = conf_files (conf s)"
    by simp_all
  show ?case
  proof (cases err)
    case NoErr
    with x p fr Cons.IH [of s1] show ?thesis by (cases r) simp_all
  next
    case EOF
    with x p fr show ?thesis by (cases r) simp_all
  next
    case (IOErr m)
    with x show ?thesis by simp
  qed
qed

lemma parse_file_frame:
  "files (snd (parse_file fname fobj s)) = files s \<and>
   files_next (snd (parse_file fname fobj s)) = files_next s \<and>
   conf_files (conf (snd (parse_file fname fobj s))) = conf_files (conf s)"
  by (cases fobj) (simp_all add: parse_file_def read_loop_frame)

lemma parse_files_frame:
  "files (snd (parse_files ps s)) = files s \<and>
   files_next (snd (parse_files ps s)) = files_next s \<and>
   conf_files (conf (snd (parse_files ps s))) = conf_files (conf s)"
proof (induction ps arbitrary: s)
  case Nil
  then show ?case by simp
next
  case (Cons p ps)
  show ?case
  proof (cases "conf_files (conf s) p")
    case None
    with Cons.IH [of s] show ?thesis by simp
  next
    case (Some fobj)
    obtain r s1 where p: "parse_file p fobj s = (r, s1)" by (cases "parse_file p fobj s")
    from p parse_file_frame [of p fobj s] have fr: "files s1 = files s"
      "files_next s1 = files_next s" "conf_files (conf s1) = conf_files (conf s)"
      by simp_all
    with Some p Cons.IH [of s1] show ?thesis by (cases r) simp_all
  qed
qed

lemma finalize_frame:
  "conf (finalize ps s) = conf s \<and> heap (finalize ps s) = heap s \<and>
   heap_next (finalize ps s) = heap_next s \<and> files_next (finalize ps s) = files_next s"
proof (induction ps arbitrary: s)
  case Nil
  then show ?case by simp
next
  case (Cons p ps)
  show ?case
  proof (cases "conf_files (conf s) p")
    case None
    with Cons.IH [of s] show ?thesis by simp
  next
    case (Some fobj)
    with Cons.IH [of "Close fobj s"] show ?thesis
      by (cases fobj) (simp_all add: Close_def)
  qed
qed

lemma finalize_close_calls:
  "close_calls (files (finalize ps s) f) =
     close_calls (files s f) + length (filter (\<lambda>p. conf_files (conf s) p = Some (Some f)) ps)"
proof (induction ps arbitrary: s)
  case Nil
  then show ?case by simp
next
  case (Cons p ps)
  show ?case
  proof (cases "conf_files (conf s) p")
    case None
    with Cons.IH [of s] show ?thesis by simp
  next
    case (Some fobj)
    show ?thesis
    proof (cases fobj)
      case None
      with Some Cons.IH [of s] show ?thesis by (simp add: Close_def)
    next
      case (Some g)
      have c: "conf (Close (Some g) s) = conf s"
        by (simp add: Close_def)
      have "close_calls (files (Close (Some g) s) f) =
          close_calls (files s f) + (if g = f then 1 else 0)"
        by (simp add: Close_def)
      with \<open>conf_files (conf s) p = Some fobj\<close> Some Cons.IH [of "Close (Some g) s"] c
      show ?thesis by simp
    qed
  qed
qed

lemma filter_unique:
  assumes "distinct ps" "p \<in> set ps" "P p" "\<forall>q \<in> set ps. P q \<longrightarrow> q = p"
  shows "length (filter P ps) = 1"
proof -
  have "{x. P x} \<inter> set ps = {p}"
    using assms(2-4) by blast
  with distinct_length_filter [OF assms(1), of P] show ?thesis
    by simp
qed

section \<open>Closing what was opened\<close>

text \<open>
  C8. Whatever way \<open>Parse_conf\<close> ends (success, a line error, a failed open or read, a
  panic), every os.File that the call opened has had \<open>Close\<close> called on it exactly once,
  and no other os.File has been touched. The files opened by the call are those allocated
  from \<open>files_next s0\<close> up to \<open>files_next s'\<close>; the Config is a new one, as \<open>NewConfig\<close>
  returns it.
\<close>

theorem Parse_conf_closes_opened_once:
  assumes o3: "range_order (conf_files (NewConfig paths)) order_close"
    and c: "conf s0 = NewConfig paths"
    and P: "Parse_conf d order_open order_parse order_close s0 = (r, s')"
  shows "files_next s0 \<le> files_next s' \<and>
     (\<forall>f. close_calls (files s' f) =
        (if files_next s0 \<le> f \<and> f < files_next s' then 1 else close_calls (files s0 f)))"
proof -
  let ?s1 = "snd (open_files d order_open s0)"
  let ?base = "files_next s0"
  have h: "handles_ok ?base ?s1"
    using handles_ok_NewConfig [OF c] by (rule open_files_handles)
  have fr1: "dom (conf_files (conf ?s1)) = set paths" "?base \<le> files_next ?s1"
    "\<And>f. f < ?base \<or> files_next ?s1 \<le> f \<Longrightarrow> files ?s1 f = files s0 f"
    using open_files_frame [of d order_open s0] c by (auto simp: NewConfig_dom)
  obtain s2 where s2: "s' = finalize order_close s2" "files s2 = files ?s1"
    "files_next s2 = files_next ?s1" "conf_files (conf s2) = conf_files (conf ?s1)"
  proof (cases "open_files d order_open s0")
    case (Pair r1 s1)
    show ?thesis
    proof (cases "r1 = Success")
      case True
      with Pair P have "s' = finalize order_close (snd (parse_files order_parse s1))"
        by (auto simp: Parse_conf_def split: prod.splits)
      with Pair parse_files_frame [of order_parse s1] that show ?thesis
        by simp
    next
      case False
      with Pair P have "s' = finalize order_close s1"
        by (cases r1) (auto simp: Parse_conf_def)
      with Pair that show ?thesis
        by simp
    qed
  qed
  have next': "files_next s' = files_next ?s1"
    using s2 finalize_frame [of order_close s2] by simp
  have d3: "distinct order_close" "set order_close = set paths"
    using o3 by (simp_all add: range_order_def NewConfig_dom)
  have count: "close_calls (files s' f) =
      close_calls (files ?s1 f) +
      length (filter (\<lambda>p. conf_files (conf ?s1) p = Some (Some f)) order_close)" for f
    using finalize_close_calls [of order_close s2 f] s2 by simp
  have "close_calls (files s' f) =
      (if ?base \<le> f \<and> f < files_next s' then 1 else close_calls (files s0 f))" for f
  proof (cases "?base \<le> f \<and> f < files_next ?s1")
    case True
    with h obtain p where p: "conf_files (conf ?s1) p = Some (Some f)"
      and z: "close_calls (files ?s1 f) = 0"
      unfolding handles_ok_def by blast
    from h p have uniq: "\<forall>q \<in> set order_close. conf_files (conf ?s1) q = Some (Some f) \<longrightarrow> q = p"
      unfolding handles_ok_def by blast
    from p fr1(1) d3(2) have "p \<in> set order_close"
      by auto
    from filter_unique [OF d3(1) this, of "\<lambda>q. conf_files (conf ?s1) q = Some (Some f)"] p uniq
    have "length (filter (\<lambda>q. conf_files (conf ?s1) q = Some (Some f)) order_close) = 1"
      by blast
    with count [of f] z True next' show ?thesis
      by simp
  next
    case False
    with h have "\<forall>p. conf_files (conf ?s1) p \<noteq> Some (Some f)"
      unfolding handles_ok_def by (metis not_le_imp_less leD)
    then have "filter (\<lambda>p. conf_files (conf ?s1) p = Some (Some f)) order_close = []"
      by (simp add: filter_empty_conv)
    moreover from False have "files ?s1 f = files s0 f"
      using fr1(3) [of f] by auto
    ultimately show ?thesis
      using count [of f] False next' by auto
  qed
  with fr1(2) next' show ?thesis
    by simp
qed

theorem Parse_conf_closes_opened_once_witness:
  "range_order (conf_files (NewConfig [''a'', ''c''])) [''c'', ''a''] \<and>
   fst (Parse_conf disk_ab [''a'', ''c''] [''a'', ''c''] [''c'', ''a''] (start (NewConfig [''a'', ''c''])))
     = Failure (OsError ''no such file'') \<and>
   files_next (snd (Parse_conf disk_ab [''a'', ''c''] [''a'', ''c''] [''c'', ''a'']
     (start (NewConfig [''a'', ''c''])))) = 1 \<and>
   close_calls (files (snd (Parse_conf disk_ab [''a'', ''c''] [''a'', ''c''] [''c'', ''a'']
     (start (NewConfig [''a'', ''c''])))) 0) = 1"
proof -
  let ?P = "Parse_conf disk_ab [''a'', ''c''] [''a'', ''c''] [''c'', ''a''] (start (NewConfig [''a'', ''c'']))"
  have ro: "range_order (conf_files (NewConfig [''a'', ''c''])) [''c'', ''a'']"
    by (auto simp: range_order_def NewConfig_dom)
  have c: "conf (start (NewConfig [''a'', ''c''])) = NewConfig [''a'', ''c'']"
    by (simp add: start_def)
  have r: "fst ?P = Failure (OsError ''no such file'')"
    by code_simp
  have n: "files_next (snd ?P) = 1"
    by code_simp
  have z: "files_next (start (NewConfig [''a'', ''c''])) = 0"
    by (simp add: start_def)
  have "?P = (fst ?P, snd ?P)"
    by simp
  from Parse_conf_closes_opened_once [OF ro c this]
  have "close_calls (files (snd ?P) 0) =
      (if files_next (start (NewConfig [''a'', ''c''])) \<le> 0 \<and> 0 < files_next (snd ?P) then 1
       else close_calls (files (start (NewConfig [''a'', ''c''])) 0))"
    by blast
  with n z have "close_calls (files (snd ?P) 0) = 1"
    by simp
  with ro r n show ?thesis
    by blast
qed

section \<open>When opening and reading succeed\<close>

lemma open_files_Success:
  "\<forall>p \<in> set ps. \<exists>rs. d p = Inr rs \<Longrightarrow> fst (open_files d ps s) = Success"
proof (induction ps arbitrary: s)
  case Nil
  then show ?case by simp
next
  case (Cons p ps)
  from Cons.prems obtain rs where rs: "d p = Inr rs" by auto
  from Cons.prems have rest: "\<forall>q \<in> set ps. \<exists>rs. d q = Inr rs" by simp
  show ?case
    using rs Cons.IH [OF rest]
    by (simp add: open_files_Cons del: open_files.simps)
qed

lemma open_one_opened:
  assumes "handles_ok base s" "conf_files (conf s) p = Some None" "d p = Inr rs"
  shows "opened d (open_one p rs s) p \<and> (\<forall>q. opened d s q \<longrightarrow> opened d (open_one p rs s) q)"
proof -
  have "opened d (open_one p rs s) p"
    using assms(3) by (simp add: opened_def open_one_def)
  moreover have "opened d (open_one p rs s) q" if "opened d s q" for q
  proof -
    from that obtain f rs' where f: "conf_files (conf s) q = Some (Some f)" "d q = Inr rs'"
      "content (files s f) = rs'"
      by (auto simp: opened_def)
    with assms(1) have "f < files_next s"
      unfolding handles_ok_def by blast
    moreover from f(1) assms(2) have "q \<noteq> p" by auto
    ultimately show ?thesis
      using f by (simp add: opened_def open_one_def)
  qed
  ultimately show ?thesis by blast
qed

lemma open_files_opened:
  "handles_ok base s \<Longrightarrow>
   \<forall>p \<in> set ps. conf_files (conf s) p = Some None \<or> opened d s p \<Longrightarrow>
   fst (open_files d ps s) = Success \<Longrightarrow>
   \<forall>q. opened d s q \<or> q \<in> set ps \<longrightarrow> opened d (snd (open_files d ps s)) q"
proof (induction ps arbitrary: s)
  case Nil
  then show ?case by simp
next
  case (Cons p ps)
  show ?case
  proof (cases "conf_files (conf s) p = Some None")
    case True
    show ?thesis
    proof (cases "d p")
      case (Inl err)
      with True Cons.prems(3) show ?thesis
        by (simp add: open_files_Cons del: open_files.simps)
    next
      case (Inr rs)
      let ?s1 = "open_one p rs s"
      have eq: "open_files d (p # ps) s = open_files d ps ?s1"
        using True Inr by (simp add: open_files_Cons del: open_files.simps)
      have h1: "handles_ok base ?s1"
        unfolding open_one_def using Cons.prems(1) True by (rule handles_ok_open)
      have op: "opened d ?s1 p \<and> (\<forall>q. opened d s q \<longrightarrow> opened d ?s1 q)"
        using Cons.prems(1) True Inr by (rule open_one_opened)
      have pre: "\<forall>q \<in> set ps. conf_files (conf ?s1) q = Some None \<or> opened d ?s1 q"
      proof
        fix q assume q: "q \<in> set ps"
        show "conf_files (conf ?s1) q = Some None \<or> opened d ?s1 q"
        proof (cases "q = p")
          case True
          with op show ?thesis by simp
        next
          case False
          with q Cons.prems(2) op show ?thesis
            by (auto simp: open_one_def)
        qed
      qed
      from Cons.prems(3) have "fst (open_files d ps ?s1) = Success"
        unfolding eq .
      from Cons.IH [OF h1 pre this] op show ?thesis
        unfolding eq by auto
    qed
  next
    case False
    then have eq: "open_files d (p # ps) s = open_files d ps s"
      by (simp add: open_files_Cons del: open_files.simps)
    from False Cons.prems(2) have p: "opened d s p" by simp
    from Cons.prems(2) have pre: "\<forall>q \<in> set ps. conf_files (conf s) q = Some None \<or> opened d s q"
      by simp
    from Cons.prems(3) have "fst (open_files d ps s) = Success"
      unfolding eq .
    from Cons.IH [OF Cons.prems(1) pre this] p show ?thesis
      unfolding eq by auto
  qed
qed

lemma read_loop_Success:
  "fst (read_loop fname rs s) = Success \<Longrightarrow> read_failure rs = None"
proof (induction rs arbitrary: s)
  case Nil
  then show ?case by simp
next
  case (Cons x rs)
  obtain line err where x: "x = (line, err)" by (cases x)
  obtain r s1 where p: "parse_line s line = (r, s1)" by (cases "parse_line s line")
  show ?case
  proof (cases err)
    case NoErr
    with x p Cons.prems Cons.IH [of s1] show ?thesis by (cases r) simp_all
  next
    case EOF
    with x show ?thesis by simp
  next
    case (IOErr m)
    with x Cons.prems show ?thesis by simp
  qed
qed

lemma parse_files_Success:
  "\<forall>p \<in> set ps. opened d s p \<Longrightarrow> fst (parse_files ps s) = Success \<Longrightarrow>
   \<forall>p \<in> set ps. \<exists>rs. d p = Inr rs \<and> read_failure rs = None"
proof (induction ps arbitrary: s)
  case Nil
  then show ?case by simp
next
  case (Cons p ps)
  from Cons.prems(1) obtain f rs where f: "conf_files (conf s) p = Some (Some f)" "d p = Inr rs"
    "content (files s f) = rs"
    by (auto simp: opened_def)
  obtain r s1 where pf: "parse_file p (Some f) s = (r, s1)" by (cases "parse_file p (Some f) s")
  with f Cons.prems(2) have r: "r = Success"
    by (cases r) simp_all
  with pf f have "fst (read_loop p rs s) = Success"
    by (simp add: parse_file_def)
  then have nf: "read_failure rs = None"
    by (rule read_loop_Success)
  from pf parse_file_frame [of p "Some f" s] have fr: "files s1 = files s"
    "conf_files (conf s1) = conf_files (conf s)"
    by simp_all
  have "\<forall>q \<in> set ps. opened d s1 q"
    using Cons.prems(1) by (simp add: opened_frame [OF fr])
  moreover have "fst (parse_files ps s1) = Success"
    using Cons.prems(2) f pf r by simp
  ultimately have "\<forall>q \<in> set ps. \<exists>rs. d q = Inr rs \<and> read_failure rs = None"
    by (rule Cons.IH)
  with f nf show ?case by simp
qed

section \<open>Parse_conf as one sequence of lines\<close>

lemma Parse_conf_parts:
  "Parse_conf d oo op oc s0 =
     (if fst (open_files d oo s0) = Success
      then (fst (parse_files op (snd (open_files d oo s0))),
            finalize oc (snd (parse_files op (snd (open_files d oo s0)))))
      else (fst (open_files d oo s0), finalize oc (snd (open_files d oo s0))))"
  by (cases "open_files d oo s0"; cases "fst (open_files d oo s0)")
    (auto simp: Parse_conf_def split: prod.splits)

lemma finalize_store: "store (finalize ps s) = store s"
  using finalize_frame [of ps s] by (simp add: store_def)

lemma store_ok_store:
  assumes "store s = store t"
  shows "store_ok s = store_ok t"
  by (simp add: store_ok_def store_eqD [OF assms])

lemma value_of_store:
  assumes "store s = store t"
  shows "value_of s sec k = value_of t sec k"
  by (simp add: value_of_def store_eqD [OF assms] split: option.splits)

lemma cur_name_store:
  assumes "store s = store t"
  shows "cur_name s = cur_name t"
  by (simp add: cur_name_def store_eqD [OF assms] split: option.splits)

lemma Get_value_of: "value_of s sec k = Some v \<Longrightarrow> Get s sec k = Inr v"
  by (auto simp: value_of_def Get_def split: option.splits)

lemma store_start: "conf s0 = NewConfig paths \<Longrightarrow> store s0 = (Map.empty, \<lparr>in_sec = False, cur_sec = None\<rparr>, heap s0, heap_next s0)"
  by (simp add: store_def NewConfig_def)

lemma new_store_ok: "conf s0 = NewConfig paths \<Longrightarrow> store_ok s0"
  by (simp add: store_ok_def NewConfig_def)

lemma new_cur_name: "conf s0 = NewConfig paths \<Longrightarrow> cur_name s0 = None"
  by (simp add: cur_name_def NewConfig_def)

lemma new_value_of: "conf s0 = NewConfig paths \<Longrightarrow> value_of s0 sec k = None"
  by (simp add: value_of_def NewConfig_def)

lemma open_files_new:
  assumes ro: "range_order (conf_files (NewConfig paths)) oo"
    and c: "conf s0 = NewConfig paths"
    and ok: "fst (open_files d oo s0) = Success"
  shows "\<forall>p \<in> set paths. opened d (snd (open_files d oo s0)) p"
proof -
  have h: "handles_ok (files_next s0) s0"
    using c by (rule handles_ok_NewConfig)
  have s: "set oo = set paths"
    using ro by (simp add: range_order_def NewConfig_dom)
  have pre: "\<forall>p \<in> set oo. conf_files (conf s0) p = Some None \<or> opened d s0 p"
    using c s by (simp add: NewConfig_conf_files)
  from open_files_opened [OF h pre ok] s show ?thesis
    by simp
qed

lemma Parse_conf_lines:
  assumes ro: "range_order (conf_files (NewConfig paths)) oo"
    and rp: "range_order (conf_files (NewConfig paths)) op"
    and c: "conf s0 = NewConfig paths"
    and good: "\<forall>p \<in> set paths. \<exists>rs. d p = Inr rs \<and> read_failure rs = None"
  shows "wraps (fst (Parse_conf d oo op oc s0)) (fst (parse_lines s0 (input_lines d op))) \<and>
     store (snd (Parse_conf d oo op oc s0)) = store (snd (parse_lines s0 (input_lines d op)))"
proof -
  let ?s1 = "snd (open_files d oo s0)"
  have so: "set oo = set paths" and sp: "set op = set paths"
    using ro rp by (simp_all add: range_order_def NewConfig_dom)
  have ok: "fst (open_files d oo s0) = Success"
    using good so by (intro open_files_Success) auto
  have op1: "\<forall>p \<in> set paths. opened d ?s1 p"
    using ro c ok by (rule open_files_new)
  have st1: "store ?s1 = store s0"
    using open_files_frame [of d oo s0] by simp
  have "\<forall>p \<in> set op. opened d ?s1 p \<and> (\<exists>rs. d p = Inr rs \<and> read_failure rs = None)"
    using op1 good sp by simp
  then have pf: "wraps (fst (parse_files op ?s1)) (fst (parse_lines ?s1 (input_lines d op))) \<and>
      snd (parse_files op ?s1) = snd (parse_lines ?s1 (input_lines d op))"
    by (rule parse_files_lines)
  from parse_lines_store [OF st1, of "input_lines d op"] pf ok show ?thesis
    by (simp add: Parse_conf_parts finalize_store)
qed

lemma Parse_conf_Success_lines:
  assumes ro: "range_order (conf_files (NewConfig paths)) oo"
    and rp: "range_order (conf_files (NewConfig paths)) op"
    and c: "conf s0 = NewConfig paths"
    and P: "Parse_conf d oo op oc s0 = (Success, s')"
  shows "fst (parse_lines s0 (input_lines d op)) = Success \<and>
     store (snd (parse_lines s0 (input_lines d op))) = store s'"
proof -
  let ?s1 = "snd (open_files d oo s0)"
  have sp: "set op = set paths"
    using rp by (simp add: range_order_def NewConfig_dom)
  from P have ok: "fst (open_files d oo s0) = Success"
    by (auto simp: Parse_conf_parts split: if_splits)
  with P have pok: "fst (parse_files op ?s1) = Success"
    and s': "s' = finalize oc (snd (parse_files op ?s1))"
    by (simp_all add: Parse_conf_parts)
  have op1: "\<forall>p \<in> set paths. opened d ?s1 p"
    using ro c ok by (rule open_files_new)
  then have op2: "\<forall>p \<in> set op. opened d ?s1 p"
    using sp by simp
  then have "\<forall>p \<in> set op. \<exists>rs. d p = Inr rs \<and> read_failure rs = None"
    using pok by (rule parse_files_Success)
  with op2 have "\<forall>p \<in> set op. opened d ?s1 p \<and> (\<exists>rs. d p = Inr rs \<and> read_failure rs = None)"
    by simp
  then have pf: "wraps (fst (parse_files op ?s1)) (fst (parse_lines ?s1 (input_lines d op))) \<and>
      snd (parse_files op ?s1) = snd (parse_lines ?s1 (input_lines d op))"
    by (rule parse_files_lines)
  with pok have l1: "fst (parse_lines ?s1 (input_lines d op)) = Success"
    by (cases "fst (parse_lines ?s1 (input_lines d op))") simp_all
  have st1: "store ?s1 = store s0"
    using open_files_frame [of d oo s0] by simp
  from parse_lines_store [OF st1, of "input_lines d op"] l1 pf s' show ?thesis
    by (simp add: finalize_store)
qed

section \<open>Last write wins\<close>

text \<open>
  C3. After a successful \<open>Parse_conf\<close> of a new Config, for every section and key that the
  parsed lines assign at least once, \<open>Get\<close> returns the value of the last of these
  assignments in parse order: an earlier value of the same key in the same section is
  overwritten without an error. The lines are those of the files in the order in which the
  loop of \<open>Parse_conf\<close> visits them.
\<close>

theorem Get_last_assignment:
  assumes "range_order (conf_files (NewConfig paths)) order_open"
    and "range_order (conf_files (NewConfig paths)) order_parse"
    and "conf s0 = NewConfig paths"
    and "Parse_conf d order_open order_parse order_close s0 = (Success, s')"
    and "last_assignment sec k (assignments None (input_lines d order_parse)) = Some v"
  shows "Get s' sec k = Inr v"
proof -
  let ?ls = "input_lines d order_parse"
  let ?t = "snd (parse_lines s0 ?ls)"
  from Parse_conf_Success_lines [OF assms(1-4)]
  have ok: "fst (parse_lines s0 ?ls) = Success" and st: "store ?t = store s'"
    by simp_all
  from ok have pl: "parse_lines s0 ?ls = (Success, ?t)"
    by (metis prod.collapse)
  from parse_lines_value_of [OF new_store_ok [OF assms(3)] pl, of sec k] assms(5)
  have "value_of ?t sec k = Some v"
    by (simp add: new_cur_name [OF assms(3)])
  then have "value_of s' sec k = Some v"
    by (simp add: value_of_store [OF st])
  then show ?thesis
    by (rule Get_value_of)
qed

theorem Get_last_assignment_witness:
  "range_order (conf_files (NewConfig [''a'', ''b''])) [''b'', ''a''] \<and>
   range_order (conf_files (NewConfig [''a'', ''b''])) [''a'', ''b''] \<and>
   Parse_conf disk_ab [''b'', ''a''] [''a'', ''b''] [''a'', ''b''] (start (NewConfig [''a'', ''b'']))
     = (Success, snd (Parse_conf disk_ab [''b'', ''a''] [''a'', ''b''] [''a'', ''b'']
          (start (NewConfig [''a'', ''b''])))) \<and>
   assignments None (input_lines disk_ab [''a'', ''b'']) = [(''s'', ''k'', ''1''), (''s'', ''k'', ''2'')] \<and>
   Get (snd (Parse_conf disk_ab [''b'', ''a''] [''a'', ''b''] [''a'', ''b'']
          (start (NewConfig [''a'', ''b''])))) ''s'' ''k'' = Inr ''2''"
proof -
  let ?P = "Parse_conf disk_ab [''b'', ''a''] [''a'', ''b''] [''a'', ''b''] (start (NewConfig [''a'', ''b'']))"
  have r1: "range_order (conf_files (NewConfig [''a'', ''b''])) [''b'', ''a'']"
    by (auto simp: range_order_def NewConfig_dom)
  have r2: "range_order (conf_files (NewConfig [''a'', ''b''])) [''a'', ''b'']"
    by (auto simp: range_order_def NewConfig_dom)
  have c: "conf (start (NewConfig [''a'', ''b''])) = NewConfig [''a'', ''b'']"
    by (simp add: start_def)
  have "fst ?P = Success"
    by code_simp
  then have P: "?P = (Success, snd ?P)"
    by (metis prod.collapse)
  have tr: "assignments None (input_lines disk_ab [''a'', ''b'']) = [(''s'', ''k'', ''1''), (''s'', ''k'', ''2'')]"
    by code_simp
  then have la: "last_assignment ''s'' ''k'' (assignments None (input_lines disk_ab [''a'', ''b''])) = Some ''2''"
    by (simp add: last_assignment_def)
  from Get_last_assignment [OF r1 r2 c P la] r1 r2 P tr show ?thesis
    by blast
qed

section \<open>The order of the files\<close>

text \<open>
  The paths are the keys of a Go map, and \<open>Parse_conf\<close> ranges over that map. For the paths
  \<open>a\<close>, \<open>b\<close> given in this order, the visit \<open>b\<close>, \<open>a\<close> is one the map allows, and it leaves
  the value of \<open>a\<close> in the store where the list order leaves that of \<open>b\<close>; a path given twice
  is one key.
\<close>

theorem Parse_conf_list_order_counterexample:
  "range_order (conf_files (NewConfig [''a'', ''b''])) [''b'', ''a''] \<and>
   Get (snd (Parse_conf disk_ab [''a'', ''b''] [''b'', ''a''] [''a'', ''b'']
          (start (NewConfig [''a'', ''b''])))) ''s'' ''k'' = Inr ''1'' \<and>
   Get (snd (Parse_conf disk_ab [''a'', ''b''] [''a'', ''b''] [''a'', ''b'']
          (start (NewConfig [''a'', ''b''])))) ''s'' ''k'' = Inr ''2'' \<and>
   conf_files (NewConfig [''a'', ''a'']) = conf_files (NewConfig [''a''])"
proof -
  have "range_order (conf_files (NewConfig [''a'', ''b''])) [''b'', ''a'']"
    by (auto simp: range_order_def NewConfig_dom)
  moreover have "Get (snd (Parse_conf disk_ab [''a'', ''b''] [''b'', ''a''] [''a'', ''b'']
          (start (NewConfig [''a'', ''b''])))) ''s'' ''k'' = Inr ''1''"
    by code_simp
  moreover have "Get (snd (Parse_conf disk_ab [''a'', ''b''] [''a'', ''b''] [''a'', ''b'']
          (start (NewConfig [''a'', ''b''])))) ''s'' ''k'' = Inr ''2''"
    by code_simp
  moreover have "conf_files (NewConfig [''a'', ''a'']) = conf_files (NewConfig [''a''])"
    by (simp add: NewConfig_def)
  ultimately show ?thesis by blast
qed

text \<open>
  C1, as the code has it. \<open>Parse_conf\<close> parses each distinct path once, in the order in
  which its \<open>range\<close> loop visits the \<open>conf_files\<close> map, whatever that order is: when every
  file opens and is read to its end, the result and the store are those of parsing, line by
  line and with one parse state, the lines of the files joined in that order.
\<close>

theorem Parse_conf_in_range_order:
  assumes "range_order (conf_files (NewConfig paths)) order_open"
    and "range_order (conf_files (NewConfig paths)) order_parse"
    and "conf s0 = NewConfig paths"
    and "\<forall>p \<in> set paths. \<exists>rs. d p = Inr rs \<and> read_failure rs = None"
  shows "wraps (fst (Parse_conf d order_open order_parse order_close s0))
           (fst (parse_lines s0 (input_lines d order_parse))) \<and>
         store (snd (Parse_conf d order_open order_parse order_close s0)) =
           store (snd (parse_lines s0 (input_lines d order_parse)))"
  using assms by (rule Parse_conf_lines)

theorem Parse_conf_in_range_order_witness:
  "range_order (conf_files (NewConfig [''a'', ''b''])) [''a'', ''b''] \<and>
   range_order (conf_files (NewConfig [''a'', ''b''])) [''b'', ''a''] \<and>
   input_lines disk_ab [''b'', ''a''] = [''[s]'', ''k = 2'', [], ''[s]'', ''k = 1'', []] \<and>
   wraps (fst (Parse_conf disk_ab [''a'', ''b''] [''b'', ''a''] [''a'', ''b''] (start (NewConfig [''a'', ''b'']))))
     (fst (parse_lines (start (NewConfig [''a'', ''b''])) (input_lines disk_ab [''b'', ''a'']))) \<and>
   store (snd (Parse_conf disk_ab [''a'', ''b''] [''b'', ''a''] [''a'', ''b''] (start (NewConfig [''a'', ''b''])))) =
     store (snd (parse_lines (start (NewConfig [''a'', ''b''])) (input_lines disk_ab [''b'', ''a''])))"
proof -
  have r1: "range_order (conf_files (NewConfig [''a'', ''b''])) [''a'', ''b'']"
    by (auto simp: range_order_def NewConfig_dom)
  have r2: "range_order (conf_files (NewConfig [''a'', ''b''])) [''b'', ''a'']"
    by (auto simp: range_order_def NewConfig_dom)
  have c: "conf (start (NewConfig [''a'', ''b''])) = NewConfig [''a'', ''b'']"
    by (simp add: start_def)
  have good: "\<forall>p \<in> set [''a'', ''b'']. \<exists>rs. disk_ab p = Inr rs \<and> read_failure rs = None"
    by (simp add: disk_ab_def)
  have ls: "input_lines disk_ab [''b'', ''a''] = [''[s]'', ''k = 2'', [], ''[s]'', ''k = 1'', []]"
    by code_simp
  from Parse_conf_in_range_order [OF r1 r2 c good] r1 r2 ls show ?thesis
    by blast
qed

section \<open>Names and keys\<close>

lemma header_name_nonempty: "header_name l = Some n \<Longrightarrow> n \<noteq> []"
proof -
  assume "header_name l = Some n"
  then have "2 < length (TrimSpace l)" "n = butlast (tl (TrimSpace l))"
    by (auto simp: header_name_def Let_def split: if_splits)
  then have "length n = length (TrimSpace l) - 2"
    by simp
  with \<open>2 < length (TrimSpace l)\<close> show ?thesis
    by auto
qed

lemma key_value_key: "key_value l = Some (k, v) \<Longrightarrow> k \<noteq> [] \<and> TrimSpace k = k"
  by (auto simp: key_value_def Let_def TrimSpace_idem split: if_splits)

lemma names_keys_ok_enter:
  assumes "names_keys_ok s" "n \<noteq> []"
  shows "names_keys_ok (enter n s)"
proof (cases "sections (conf s) n")
  case None
  with assms show ?thesis
    unfolding names_keys_ok_def enter_def by (auto split: if_splits)
next
  case (Some a)
  with assms show ?thesis
    unfolding names_keys_ok_def enter_def by simp
qed

lemma names_keys_ok_assign:
  assumes "names_keys_ok s" "k \<noteq> []" "TrimSpace k = k"
  shows "names_keys_ok (assign k v s)"
proof (cases "cur_sec (pstate (conf s))")
  case None
  with assms show ?thesis by (simp add: assign_def)
next
  case (Some a)
  with assms show ?thesis
    unfolding names_keys_ok_def assign_def by (auto split: if_splits)
qed

lemma names_keys_ok_effect: "names_keys_ok s \<Longrightarrow> names_keys_ok (effect l s)"
proof (cases "header_name l")
  case (Some n)
  assume "names_keys_ok s"
  with Some show ?thesis
    by (simp add: effect_def names_keys_ok_enter header_name_nonempty)
next
  case None
  assume ok: "names_keys_ok s"
  show ?thesis
  proof (cases "key_value l")
    case kn: None
    with None ok show ?thesis by (simp add: effect_def)
  next
    case (Some kv)
    obtain k v where kv: "kv = (k, v)" by (cases kv)
    with Some key_value_key [of l k v] have "k \<noteq> []" "TrimSpace k = k" by simp_all
    with None Some kv ok show ?thesis
      by (simp add: effect_def names_keys_ok_assign)
  qed
qed

text \<open>
  The header \<open>[   ]\<close> parses and registers a section whose name is three spaces, a name
  that trims to the empty string.
\<close>

theorem blank_section_name_counterexample:
  "fst (parse_line (start (NewConfig [])) ''[   ]'') = Success \<and>
   sections (conf (snd (parse_line (start (NewConfig [])) ''[   ]''))) ''   '' = Some 0 \<and>
   TrimSpace ''   '' = []"
proof -
  have "fst (parse_line (start (NewConfig [])) ''[   ]'') = Success"
    by code_simp
  moreover have "sections (conf (snd (parse_line (start (NewConfig [])) ''[   ]''))) ''   '' = Some 0"
    by code_simp
  moreover have "TrimSpace ''   '' = []"
    by code_simp
  ultimately show ?thesis by blast
qed

text \<open>
  C7, as the code has it. A new store has it, and every successfully parsed line keeps it:
  every registered section name is non-empty as a string (the name between the brackets is
  taken as it is, not trimmed, so it may consist of white space), and every key stored in a
  registered section is non-empty and trimmed.
\<close>

theorem names_and_keys_nonempty:
  "names_keys_ok (start (NewConfig fs)) \<and>
   (names_keys_ok s \<and> fst (parse_line s l) = Success \<longrightarrow> names_keys_ok (snd (parse_line s l)))"
proof
  show "names_keys_ok (start (NewConfig fs))"
    by (simp add: names_keys_ok_def start_def NewConfig_def)
  show "names_keys_ok s \<and> fst (parse_line s l) = Success \<longrightarrow> names_keys_ok (snd (parse_line s l))"
    by (simp add: parse_line_success names_keys_ok_effect)
qed

theorem names_and_keys_nonempty_witness:
  "names_keys_ok in_section_s \<and>
   fst (parse_line in_section_s ''  key = v '') = Success \<and>
   names_keys_ok (snd (parse_line in_section_s ''  key = v '')) \<and>
   Get (snd (parse_line in_section_s ''  key = v '')) ''s'' ''key'' = Inr ''v''"
proof -
  have h: "fst (parse_line (start (NewConfig [])) ''[s]'') = Success"
    by code_simp
  from names_and_keys_nonempty [of "[]" "start (NewConfig [])" "''[s]''"] h
  have a: "names_keys_ok in_section_s"
    by (simp add: in_section_s_def)
  have k: "fst (parse_line in_section_s ''  key = v '') = Success"
    by code_simp
  from names_and_keys_nonempty [of "[]" in_section_s "''  key = v ''"] a k
  have b: "names_keys_ok (snd (parse_line in_section_s ''  key = v ''))"
    by simp
  have g: "Get (snd (parse_line in_section_s ''  key = v '')) ''s'' ''key'' = Inr ''v''"
    by code_simp
  from a k b g show ?thesis by blast
qed

section \<open>Header lines\<close>

lemma header_name_bracketed:
  assumes "TrimSpace l = CHR ''['' # n @ [CHR '']'']" "n \<noteq> []"
  shows "header_name l = Some n"
proof -
  from assms(2) have "2 < length (CHR ''['' # n @ [CHR '']''])"
    by (cases n) simp_all
  then show ?thesis
    by (simp add: header_name_def Let_def assms(1) butlast_append)
qed

lemma enter_twice: "enter n (enter n s) = enter n s"
  by (cases "sections (conf s) n") (simp_all add: enter_def)

lemma one_section_per_name:
  assumes "store_ok s" "sections (conf s) n = Some a"
  shows "\<exists>!b. (\<exists>m. sections (conf s) m = Some b) \<and> name (heap s b) = n"
proof
  from assms show "(\<exists>m. sections (conf s) m = Some a) \<and> name (heap s a) = n"
    unfolding store_ok_def by blast
next
  fix b
  assume "(\<exists>m. sections (conf s) m = Some b) \<and> name (heap s b) = n"
  then obtain m where m: "sections (conf s) m = Some b" and nb: "name (heap s b) = n"
    by blast
  from assms(1) m have "name (heap s b) = m"
    unfolding store_ok_def by blast
  with nb m assms(2) show "b = a"
    by simp
qed

lemma enter_registers: "\<exists>a. sections (conf (enter n s)) n = Some a"
  by (cases "sections (conf s) n") (simp_all add: enter_def)

text \<open>
  C4. A line that trims to \<open>[name]\<close> with a non-empty name parses successfully. If the store
  has a Section of that name, that Section becomes the current one and nothing else changes
  (its fields are kept); otherwise one new Section of that name, with no fields, is
  allocated, registered and made current. Parsing the line a second time changes nothing
  more, and the store holds exactly one Section of that name.
\<close>

theorem header_line_idempotent:
  assumes "TrimSpace l = CHR ''['' # n @ [CHR '']'']" and "n \<noteq> []" and "store_ok s"
  shows "fst (parse_line s l) = Success \<and>
     (case sections (conf s) n of
        Some a \<Rightarrow>
          snd (parse_line s l) =
            s\<lparr>conf := (conf s)\<lparr>pstate := \<lparr>in_sec = True, cur_sec = Some a\<rparr>\<rparr>\<rparr>
      | None \<Rightarrow>
          snd (parse_line s l) =
            s\<lparr>heap := (heap s)(heap_next s := \<lparr>name = n, fields_map = Map.empty\<rparr>),
              heap_next := Suc (heap_next s),
              conf := (conf s)\<lparr>sections := (sections (conf s))(n \<mapsto> heap_next s),
                                pstate := \<lparr>in_sec = True, cur_sec = Some (heap_next s)\<rparr>\<rparr>\<rparr>) \<and>
     parse_line (snd (parse_line s l)) l = parse_line s l \<and>
     store_ok (snd (parse_line s l)) \<and>
     (\<exists>!b. (\<exists>m. sections (conf (snd (parse_line s l))) m = Some b) \<and>
            name (heap (snd (parse_line s l)) b) = n)"
proof -
  have h: "header_name l = Some n"
    using assms(1,2) by (rule header_name_bracketed)
  have p: "parse_line s l = (Success, enter n s)" for s
    using h by (rule parse_line_header)
  have ok: "store_ok (enter n s)"
    using assms(3) by (rule store_ok_enter)
  obtain a where a: "sections (conf (enter n s)) n = Some a"
    using enter_registers by blast
  have c2: "(case sections (conf s) n of
        Some a \<Rightarrow>
          snd (parse_line s l) =
            s\<lparr>conf := (conf s)\<lparr>pstate := \<lparr>in_sec = True, cur_sec = Some a\<rparr>\<rparr>\<rparr>
      | None \<Rightarrow>
          snd (parse_line s l) =
            s\<lparr>heap := (heap s)(heap_next s := \<lparr>name = n, fields_map = Map.empty\<rparr>),
              heap_next := Suc (heap_next s),
              conf := (conf s)\<lparr>sections := (sections (conf s))(n \<mapsto> heap_next s),
                                pstate := \<lparr>in_sec = True, cur_sec = Some (heap_next s)\<rparr>\<rparr>\<rparr>)"
    by (simp add: p enter_def split: option.splits)
  have c1: "fst (parse_line s l) = Success"
    by (simp add: p)
  have c3: "parse_line (snd (parse_line s l)) l = parse_line s l"
    by (simp add: p enter_twice)
  have c4: "store_ok (snd (parse_line s l))"
    using ok by (simp add: p)
  have c5: "\<exists>!b. (\<exists>m. sections (conf (snd (parse_line s l))) m = Some b) \<and>
            name (heap (snd (parse_line s l)) b) = n"
    using one_section_per_name [OF ok a] by (simp add: p)
  from c1 c2 c3 c4 c5 show ?thesis
    by (intro conjI)
qed

theorem header_line_idempotent_witness:
  "TrimSpace '' [s]'' = CHR ''['' # ''s'' @ [CHR '']''] \<and>
   store_ok in_section_s_with_k \<and>
   fst (parse_line in_section_s_with_k '' [s]'') = Success \<and>
   parse_line (snd (parse_line in_section_s_with_k '' [s]'')) '' [s]''
     = parse_line in_section_s_with_k '' [s]'' \<and>
   sections (conf in_section_s_with_k) ''s'' = Some 0 \<and>
   snd (parse_line in_section_s_with_k '' [s]'') =
     in_section_s_with_k\<lparr>conf := (conf in_section_s_with_k)\<lparr>pstate :=
       \<lparr>in_sec = True, cur_sec = Some 0\<rparr>\<rparr>\<rparr> \<and>
   Get (snd (parse_line in_section_s_with_k '' [s]'')) ''s'' ''k'' = Inr ''v''"
proof -
  have t: "TrimSpace '' [s]'' = CHR ''['' # ''s'' @ [CHR '']'']"
    by code_simp
  have ne: "''s'' \<noteq> []"
    by simp
  have ok: "store_ok in_section_s_with_k"
    unfolding in_section_s_with_k_def in_section_s_def
    by (intro parse_line_store_ok store_ok_start)
  have reg: "sections (conf in_section_s_with_k) ''s'' = Some 0"
    by code_simp
  have g: "Get (snd (parse_line in_section_s_with_k '' [s]'')) ''s'' ''k'' = Inr ''v''"
    by code_simp
  note h = header_line_idempotent [OF t ne ok]
  from h have c1: "fst (parse_line in_section_s_with_k '' [s]'') = Success"
    by blast
  from h have c3: "parse_line (snd (parse_line in_section_s_with_k '' [s]'')) '' [s]''
      = parse_line in_section_s_with_k '' [s]''"
    by blast
  from h have "(case sections (conf in_section_s_with_k) ''s'' of
        Some a \<Rightarrow>
          snd (parse_line in_section_s_with_k '' [s]'') =
            in_section_s_with_k\<lparr>conf := (conf in_section_s_with_k)\<lparr>pstate :=
              \<lparr>in_sec = True, cur_sec = Some a\<rparr>\<rparr>\<rparr>
      | None \<Rightarrow>
          snd (parse_line in_section_s_with_k '' [s]'') =
            in_section_s_with_k\<lparr>heap := (heap in_section_s_with_k)(heap_next in_section_s_with_k :=
                \<lparr>name = ''s'', fields_map = Map.empty\<rparr>),
              heap_next := Suc (heap_next in_section_s_with_k),
              conf := (conf in_section_s_with_k)\<lparr>sections :=
                  (sections (conf in_section_s_with_k))(''s'' \<mapsto> heap_next in_section_s_with_k),
                pstate := \<lparr>in_sec = True, cur_sec = Some (heap_next in_section_s_with_k)\<rparr>\<rparr>\<rparr>)"
    by blast
  then have c2: "snd (parse_line in_section_s_with_k '' [s]'') =
     in_section_s_with_k\<lparr>conf := (conf in_section_s_with_k)\<lparr>pstate :=
       \<lparr>in_sec = True, cur_sec = Some 0\<rparr>\<rparr>\<rparr>"
    unfolding reg by simp
  from t ok c1 c3 reg c2 g show ?thesis
    by (intro conjI)
qed

section \<open>A key/value line before any header\<close>

lemma parse_lines_blank: "\<forall>l \<in> set ls. TrimSpace l = [] \<Longrightarrow> parse_lines s ls = (Success, s)"
  by (induction ls) (simp_all add: parse_line_blank)

lemma read_loop_prefix:
  "parse_lines s ls = (Success, s') \<Longrightarrow>
   read_loop fname (map (\<lambda>l. (l, NoErr)) ls @ rs) s = read_loop fname rs s'"
proof (induction ls arbitrary: s)
  case Nil
  then show ?case by simp
next
  case (Cons l ls)
  obtain r s1 where p: "parse_line s l = (r, s1)" by (cases "parse_line s l")
  with Cons.prems have r: "r = Success" and rest: "parse_lines s1 ls = (Success, s')"
    by (cases r; simp)+
  from Cons.IH [OF rest] p r show ?case
    by simp
qed

lemma parse_files_append:
  "parse_files (xs @ ys) s =
     (case parse_files xs s of
        (Success, s') \<Rightarrow> parse_files ys s'
      | (r, s') \<Rightarrow> (r, s'))"
proof (induction xs arbitrary: s)
  case Nil
  then show ?case by simp
next
  case (Cons x xs)
  show ?case
  proof (cases "conf_files (conf s) x")
    case None
    with Cons.IH [of s] show ?thesis by simp
  next
    case (Some fobj)
    obtain r s1 where p: "parse_file x fobj s = (r, s1)" by (cases "parse_file x fobj s")
    with Some Cons.IH [of s1] show ?thesis by (cases r) simp_all
  qed
qed

lemma parse_files_blank:
  assumes "\<forall>p \<in> set ps. opened d s p \<and>
      (\<exists>rs. d p = Inr rs \<and> read_failure rs = None \<and> (\<forall>l \<in> set (delivered rs). TrimSpace l = []))"
  shows "parse_files ps s = (Success, s)"
proof -
  have "\<forall>l \<in> set (input_lines d ps). TrimSpace l = []"
    using assms by (fastforce simp: input_lines_def)
  then have pl: "parse_lines s (input_lines d ps) = (Success, s)"
    by (rule parse_lines_blank)
  from assms have "\<forall>p \<in> set ps. opened d s p \<and> (\<exists>rs. d p = Inr rs \<and> read_failure rs = None)"
    by blast
  from parse_files_lines [OF this] pl
  have "wraps (fst (parse_files ps s)) Success" "snd (parse_files ps s) = s"
    by simp_all
  then show ?thesis
    by (cases "parse_files ps s"; cases "fst (parse_files ps s)") auto
qed

lemma read_loop_outside_section:
  assumes "\<forall>l \<in> set blanks. TrimSpace l = []" "e = NoErr \<or> e = EOF"
    "key_value line = Some (k, v)" "\<not> in_sec (pstate (conf s))"
  shows "read_loop fname (map (\<lambda>l. (l, NoErr)) blanks @ (line, e) # rest) s =
     (Failure (ConfFileError fname
        (ConfLineError (TrimSpace line) ''configuration line without section'')), s)"
proof -
  have "parse_lines s blanks = (Success, s)"
    using assms(1) by (rule parse_lines_blank)
  then have "read_loop fname (map (\<lambda>l. (l, NoErr)) blanks @ (line, e) # rest) s =
      read_loop fname ((line, e) # rest) s"
    by (rule read_loop_prefix)
  also have "\<dots> = (Failure (ConfFileError fname
        (ConfLineError (TrimSpace line) ''configuration line without section'')), s)"
    using assms(2,4) by (auto simp: parse_line_key_value [OF assms(3)])
  finally show ?thesis .
qed

text \<open>
  For the paths \<open>a\<close>, \<open>b\<close> in this order, the key/value line of \<open>a\<close> comes before any
  header. When the loop of \<open>Parse_conf\<close> visits \<open>b\<close> first, the line falls into the section
  that \<open>b\<close> opens: the parse succeeds and the key is stored.
\<close>

theorem key_value_first_counterexample:
  "range_order (conf_files (NewConfig [''a'', ''b''])) [''b'', ''a''] \<and>
   fst (Parse_conf disk_kv [''a'', ''b''] [''b'', ''a''] [''a'', ''b''] (start (NewConfig [''a'', ''b''])))
     = Success \<and>
   Get (snd (Parse_conf disk_kv [''a'', ''b''] [''b'', ''a''] [''a'', ''b'']
          (start (NewConfig [''a'', ''b''])))) ''s'' ''k'' = Inr ''v''"
proof -
  have "range_order (conf_files (NewConfig [''a'', ''b''])) [''b'', ''a'']"
    by (auto simp: range_order_def NewConfig_dom)
  moreover have "fst (Parse_conf disk_kv [''a'', ''b''] [''b'', ''a''] [''a'', ''b'']
      (start (NewConfig [''a'', ''b'']))) = Success"
    by code_simp
  moreover have "Get (snd (Parse_conf disk_kv [''a'', ''b''] [''b'', ''a''] [''a'', ''b'']
          (start (NewConfig [''a'', ''b''])))) ''s'' ''k'' = Inr ''v''"
    by code_simp
  ultimately show ?thesis by blast
qed

text \<open>
  C5, as the code has it. The files all open, and in the order in which the loop of
  \<open>Parse_conf\<close> visits them every line delivered before a certain line is blank. That line
  is a key/value line: its first \<open>=\<close> is not at its start, and its trimmed value is neither
  empty nor a single double quote. Then \<open>Parse_conf\<close> fails with the file and the trimmed
  line in the error and the cause \<open>configuration line without section\<close>, and the store is
  as it was: nothing after the line is parsed, in this file or a later one.
\<close>

theorem key_value_before_header:
  assumes ro: "range_order (conf_files (NewConfig paths)) order_open"
    and rp: "range_order (conf_files (NewConfig paths)) order_parse"
    and c: "conf s0 = NewConfig paths"
    and opens: "\<forall>p \<in> set paths. \<exists>rs. d p = Inr rs"
    and order: "order_parse = before @ f # after"
    and blank_files: "\<forall>p \<in> set before. \<exists>rs. d p = Inr rs \<and> read_failure rs = None \<and>
        (\<forall>l \<in> set (delivered rs). TrimSpace l = [])"
    and at_f: "d f = Inr (map (\<lambda>l. (l, NoErr)) blanks @ (line, e) # rest)"
    and blank_lines: "\<forall>l \<in> set blanks. TrimSpace l = []"
    and with_line: "e = NoErr \<or> e = EOF"
    and kv: "key_value line = Some (k, v)"
  shows "fst (Parse_conf d order_open order_parse order_close s0) =
       Failure (ConfFileError f
         (ConfLineError (TrimSpace line) ''configuration line without section'')) \<and>
     store (snd (Parse_conf d order_open order_parse order_close s0)) = store s0"
proof -
  let ?s1 = "snd (open_files d order_open s0)"
  let ?err = "Failure (ConfFileError f
         (ConfLineError (TrimSpace line) ''configuration line without section''))"
  have so: "set order_open = set paths" and sp: "set order_parse = set paths"
    using ro rp by (simp_all add: range_order_def NewConfig_dom)
  have ok: "fst (open_files d order_open s0) = Success"
    using opens so by (intro open_files_Success) auto
  have op1: "\<forall>p \<in> set paths. opened d ?s1 p"
    using ro c ok by (rule open_files_new)
  have st1: "store ?s1 = store s0"
    using open_files_frame [of d order_open s0] by simp
  have out: "\<not> in_sec (pstate (conf ?s1))"
    using store_eqD(2) [OF st1] c by (simp add: NewConfig_def)
  have "\<forall>p \<in> set before. opened d ?s1 p \<and>
      (\<exists>rs. d p = Inr rs \<and> read_failure rs = None \<and> (\<forall>l \<in> set (delivered rs). TrimSpace l = []))"
    using op1 blank_files sp order by auto
  then have b: "parse_files before ?s1 = (Success, ?s1)"
    by (rule parse_files_blank)
  have "opened d ?s1 f"
    using op1 sp order by auto
  then obtain fd where fd: "conf_files (conf ?s1) f = Some (Some fd)"
    "content (files ?s1 fd) = map (\<lambda>l. (l, NoErr)) blanks @ (line, e) # rest"
    using at_f by (auto simp: opened_def)
  have "parse_file f (Some fd) ?s1 = (?err, ?s1)"
    using read_loop_outside_section [OF blank_lines with_line kv out, of f rest] fd(2)
    by (simp add: parse_file_def)
  with fd(1) have "parse_files (f # after) ?s1 = (?err, ?s1)"
    by simp
  with b have "parse_files order_parse ?s1 = (?err, ?s1)"
    by (simp add: order parse_files_append)
  with ok st1 show ?thesis
    by (simp add: Parse_conf_parts finalize_store)
qed

theorem key_value_before_header_witness:
  "range_order (conf_files (NewConfig [''e'', ''a'', ''b''])) [''b'', ''a'', ''e''] \<and>
   range_order (conf_files (NewConfig [''e'', ''a'', ''b''])) [''e'', ''a'', ''b''] \<and>
   key_value ''k = v'' = Some (''k'', ''v'') \<and>
   fst (Parse_conf disk_kv [''b'', ''a'', ''e''] [''e'', ''a'', ''b''] [''a'', ''b'', ''e'']
          (start (NewConfig [''e'', ''a'', ''b''])))
     = Failure (ConfFileError ''a''
         (ConfLineError (TrimSpace ''k = v'') ''configuration line without section'')) \<and>
   store (snd (Parse_conf disk_kv [''b'', ''a'', ''e''] [''e'', ''a'', ''b''] [''a'', ''b'', ''e'']
          (start (NewConfig [''e'', ''a'', ''b'']))))
     = store (start (NewConfig [''e'', ''a'', ''b'']))"
proof -
  have r1: "range_order (conf_files (NewConfig [''e'', ''a'', ''b''])) [''b'', ''a'', ''e'']"
    by (auto simp: range_order_def NewConfig_dom)
  have r2: "range_order (conf_files (NewConfig [''e'', ''a'', ''b''])) [''e'', ''a'', ''b'']"
    by (auto simp: range_order_def NewConfig_dom)
  have c: "conf (start (NewConfig [''e'', ''a'', ''b''])) = NewConfig [''e'', ''a'', ''b'']"
    by (simp add: start_def)
  have opens: "\<forall>p \<in> set [''e'', ''a'', ''b'']. \<exists>rs. disk_kv p = Inr rs"
    by (simp add: disk_kv_def)
  have order: "[''e'', ''a'', ''b''] = [''e''] @ ''a'' # [''b'']"
    by simp
  have blank_files: "\<forall>p \<in> set [''e'']. \<exists>rs. disk_kv p = Inr rs \<and> read_failure rs = None \<and>
        (\<forall>l \<in> set (delivered rs). TrimSpace l = [])"
    by (simp add: disk_kv_def TrimSpace_Nil)
  have at_a: "disk_kv ''a'' = Inr (map (\<lambda>l. (l, NoErr)) [''  ''] @ (''k = v'', NoErr) # [(''[s]'', NoErr)])"
    by (simp add: disk_kv_def)
  have sp: "TrimSpace ''  '' = []"
    by code_simp
  then have blank_lines: "\<forall>l \<in> set [''  '']. TrimSpace l = []"
    by simp
  have e: "NoErr = NoErr \<or> NoErr = EOF"
    by simp
  have kv: "key_value ''k = v'' = Some (''k'', ''v'')"
    by code_simp
  from key_value_before_header [OF r1 r2 c opens order blank_files at_a blank_lines e kv] r1 r2 kv
  show ?thesis
    by blast
qed

section \<open>Text that comes with a read error\<close>





end
